theory Spec2Isabelle
  imports Complex_Main
begin

section \<open>Monte Carlo tree search (open\_spiel/algorithms/mcts.cc)\<close>

text \<open>
  A shallow embedding of the search of \<^verbatim>\<open>mcts.cc\<close>: \<^verbatim>\<open>SearchNode::Value\<close>,
  \<^verbatim>\<open>SearchNode::CompareFinal\<close>, \<^verbatim>\<open>SearchNode::BestChild\<close>, \<^verbatim>\<open>MCTSBot::ApplyTreePolicy\<close>,
  \<^verbatim>\<open>MCTSBot::MCTSearch\<close> and \<^verbatim>\<open>MCTSBot::Step\<close>.

  Conventions of the embedding.
  \<^item> A \<^verbatim>\<open>double\<close> is a real number: rounding, infinities and NaN are not modelled. The
    one infinity of the source, the initial \<^verbatim>\<open>max_value\<close> of the selection loop, is the
    value \<open>None\<close> of an option.
  \<^item> An \<^verbatim>\<open>int\<close> is an unbounded integer; the counters of the search are bounded by
    \<^verbatim>\<open>max_simulations_\<close>, itself an \<^verbatim>\<open>int\<close>.
  \<^item> Undefined behaviour of the source (an index outside a vector, a null pointer that is
    dereferenced, the end iterator of an empty range that is dereferenced) is a value
    \<open>Inl e\<close> of the result; a run that meets none is \<open>Inr\<close>.
  \<^item> A pointer to a node of the tree is the list of child indices that leads to it from
    the root; \<^verbatim>\<open>visit_path\<close>, a vector of pointers to the nodes from the root down to
    the frontier, is the index path of the frontier (its prefixes are the pointers).
  \<^item> The game state, the evaluator, the random number generator and the capacity of a
    vector are not part of \<^verbatim>\<open>mcts.cc\<close>: they are parameters, fields of the record
    \<open>MCTSBot\<close>. The generator's state and whatever state the evaluator keeps are one
    value \<open>'w\<close> threaded through the search.
\<close>

subsection \<open>Data\<close>

type_synonym Action = int
type_synonym Player = int
type_synonym ActionsAndProbs = "(Action \<times> real) list"

datatype error =
    OutOfRange    \<comment> \<open>\<^verbatim>\<open>v[i]\<close> with \<^verbatim>\<open>i\<close> outside \<^verbatim>\<open>v\<close>\<close>
  | NullPointer   \<comment> \<open>\<^verbatim>\<open>chosen_child->action\<close> with \<^verbatim>\<open>chosen_child == nullptr\<close>\<close>
  | EmptyRange    \<comment> \<open>\<^verbatim>\<open>*std::max_element(first, last)\<close> with \<^verbatim>\<open>first == last\<close>\<close>
  | BadPath       \<comment> \<open>an index path that names no node (no run of the search builds one)\<close>

text \<open>\<^verbatim>\<open>v[i]\<close> for a vector \<^verbatim>\<open>v\<close> and a signed index \<^verbatim>\<open>i\<close>.\<close>

definition index_at :: "'a list \<Rightarrow> int \<Rightarrow> error + 'a" where
  "index_at v i = (if 0 \<le> i \<and> nat i < length v then Inr (v ! nat i) else Inl OutOfRange)"

text \<open>
  The fields of \<^verbatim>\<open>struct SearchNode\<close> that \<^verbatim>\<open>mcts.cc\<close> reads and writes (the struct is
  declared in \<^verbatim>\<open>mcts.h\<close>).
\<close>

datatype SearchNode = SearchNode
  (action: Action)
  (player: Player)
  (prior: real)
  (explore_count: int)
  (total_reward: real)
  (outcome: "real list")
  (children: "SearchNode list")

text \<open>
  Modelled from the spec: the constructor \<^verbatim>\<open>SearchNode(action, player, prior)\<close> is
  declared in \<^verbatim>\<open>mcts.h\<close>, which is not among the sources. A new node has never been
  visited, has no reward, no proven outcome and no children.
\<close>

definition new_SearchNode :: "Action \<Rightarrow> Player \<Rightarrow> real \<Rightarrow> SearchNode" where
  "new_SearchNode a p pr = SearchNode a p pr 0 0 [] []"

fun set_outcome :: "real list \<Rightarrow> SearchNode \<Rightarrow> SearchNode" where
  "set_outcome v (SearchNode a p pr ec tr out cs) = SearchNode a p pr ec tr v cs"

fun set_children :: "SearchNode list \<Rightarrow> SearchNode \<Rightarrow> SearchNode" where
  "set_children cs' (SearchNode a p pr ec tr out cs) = SearchNode a p pr ec tr out cs'"

fun add_visit :: "real \<Rightarrow> SearchNode \<Rightarrow> SearchNode" where
  "add_visit r (SearchNode a p pr ec tr out cs) = SearchNode a p pr (ec + 1) (tr + r) out cs"

subsection \<open>\<^verbatim>\<open>SearchNode::Value\<close>, \<^verbatim>\<open>SearchNode::CompareFinal\<close>, \<^verbatim>\<open>SearchNode::BestChild\<close>\<close>

definition Value :: "SearchNode \<Rightarrow> int \<Rightarrow> real \<Rightarrow> error + real" where
  "Value n parent_explore_count uct_c =
     (if outcome n \<noteq> [] then index_at (outcome n) (player n)
      else Inr ((if explore_count n \<noteq> 0 then total_reward n / real_of_int (explore_count n) else 0) +
                uct_c * prior n * sqrt (real_of_int parent_explore_count) /
                real_of_int (explore_count n + 1)))"

text \<open>\<^verbatim>\<open>outcome.empty() ? 0 : outcome[player]\<close>\<close>

definition out_of :: "SearchNode \<Rightarrow> error + real" where
  "out_of n = (if outcome n = [] then Inr 0 else index_at (outcome n) (player n))"

definition CompareFinal :: "SearchNode \<Rightarrow> SearchNode \<Rightarrow> error + bool" where
  "CompareFinal a b =
     (case out_of a of Inl e \<Rightarrow> Inl e | Inr out \<Rightarrow>
      (case out_of b of Inl e \<Rightarrow> Inl e | Inr out_b \<Rightarrow>
        Inr (if out \<noteq> out_b then out < out_b
             else if explore_count a \<noteq> explore_count b then explore_count a < explore_count b
             else total_reward a < total_reward b)))"

text \<open>
  \<^verbatim>\<open>std::max_element(first, last, comp)\<close>: \<^verbatim>\<open>largest\<close> starts at the first element
  and moves to a later element \<^verbatim>\<open>x\<close> when \<^verbatim>\<open>comp(*largest, x)\<close>. The arguments are the
  element \<^verbatim>\<open>*largest\<close>, its index, the index of the next element, and the elements left.
\<close>

fun max_element :: "SearchNode \<Rightarrow> nat \<Rightarrow> nat \<Rightarrow> SearchNode list \<Rightarrow> error + nat" where
  "max_element largest li i [] = Inr li"
| "max_element largest li i (x # xs) =
     (case CompareFinal largest x of
        Inl e \<Rightarrow> Inl e
      | Inr lt \<Rightarrow> if lt then max_element x i (Suc i) xs else max_element largest li (Suc i) xs)"

text \<open>The reference \<^verbatim>\<open>BestChild\<close> returns is the index of the child in \<^verbatim>\<open>children\<close>.\<close>

definition BestChild :: "SearchNode \<Rightarrow> error + nat" where
  "BestChild n = (case children n of [] \<Rightarrow> Inl EmptyRange | c # cs \<Rightarrow> max_element c 0 1 cs)"

subsection \<open>The chance sampling of \<^verbatim>\<open>MCTSBot::ApplyTreePolicy\<close>\<close>

text \<open>
  \<^verbatim>\<open>for (double sum = 0; sum < rand; ++index) sum += outcomes[index].second;\<close>
  (\<open>csum\<close> is the source's \<^verbatim>\<open>sum\<close>).
\<close>

function cdf_scan :: "ActionsAndProbs \<Rightarrow> real \<Rightarrow> real \<Rightarrow> nat \<Rightarrow> error + nat" where
  "cdf_scan outcomes rand csum index =
     (if csum < rand then
        (if index < length outcomes
         then cdf_scan outcomes rand (csum + snd (outcomes ! index)) (index + 1)
         else Inl OutOfRange)
      else Inr index)"
  by pat_completeness auto
termination
  by (relation "measure (\<lambda>(outcomes, rand, csum, index). length outcomes - index)") auto

declare cdf_scan.simps [simp del]

text \<open>\<^verbatim>\<open>Action chosen_action = outcomes[index].first;\<close> after the scan.\<close>

definition sample_chosen_action :: "ActionsAndProbs \<Rightarrow> real \<Rightarrow> error + Action" where
  "sample_chosen_action outcomes rand =
     (case cdf_scan outcomes rand 0 0 of
        Inl e \<Rightarrow> Inl e
      | Inr index \<Rightarrow> if index < length outcomes then Inr (fst (outcomes ! index)) else Inl OutOfRange)"

text \<open>
  The scan over \<^verbatim>\<open>current_node->children\<close> for the child whose action is
  \<^verbatim>\<open>chosen_action\<close>; \<open>None\<close> is \<^verbatim>\<open>chosen_child == nullptr\<close>.
\<close>

fun find_child :: "Action \<Rightarrow> nat \<Rightarrow> SearchNode list \<Rightarrow> nat option" where
  "find_child a i [] = None"
| "find_child a i (c # cs) = (if action c = a then Some i else find_child a (Suc i) cs)"

text \<open>
  The selection loop of a decision node. \<open>max_value = None\<close> is minus infinity, below
  every value.
\<close>

fun uct_scan :: "real \<Rightarrow> int \<Rightarrow> real option \<Rightarrow> nat option \<Rightarrow> nat \<Rightarrow> SearchNode list \<Rightarrow> error + nat option" where
  "uct_scan c pec max_value chosen i [] = Inr chosen"
| "uct_scan c pec max_value chosen i (child # rest) =
     (case Value child pec c of
        Inl e \<Rightarrow> Inl e
      | Inr val \<Rightarrow>
          if (case max_value of None \<Rightarrow> True | Some m \<Rightarrow> val > m)
          then uct_scan c pec (Some val) (Some i) (Suc i) rest
          else uct_scan c pec max_value chosen (Suc i) rest)"

subsection \<open>The parameters of the search\<close>

text \<open>
  The methods of \<^verbatim>\<open>State\<close> that \<^verbatim>\<open>mcts.cc\<close> calls, over a type \<open>'s\<close> of game states.
  \<^verbatim>\<open>ApplyAction\<close>, which changes the state it is called on, returns the new state.
\<close>

record 's State_ops =
  IsTerminal :: "'s \<Rightarrow> bool"
  IsChanceNode :: "'s \<Rightarrow> bool"
  CurrentPlayer :: "'s \<Rightarrow> Player"
  ChanceOutcomes :: "'s \<Rightarrow> ActionsAndProbs"
  ApplyAction :: "'s \<Rightarrow> Action \<Rightarrow> 's"
  Returns :: "'s \<Rightarrow> real list"

text \<open>
  The members of \<^verbatim>\<open>MCTSBot\<close> (\<^verbatim>\<open>uct_c_\<close>, \<^verbatim>\<open>max_simulations_\<close>, \<^verbatim>\<open>max_memory_\<close>, \<^verbatim>\<open>solve_\<close>,
  \<^verbatim>\<open>max_utility_\<close>, written without the last underscore), the constant
  \<^verbatim>\<open>kChancePlayerId\<close>, the two methods of the evaluator, and the library calls:
  \<^verbatim>\<open>std::shuffle\<close> with \<^verbatim>\<open>rng_\<close>, one draw of
  \<^verbatim>\<open>std::uniform_real_distribution<double>(0.0, 1.0)(rng_)\<close>, and
  \<^verbatim>\<open>VectorMemory\<close> (\<^verbatim>\<open>sizeof(T) * vec.capacity()\<close>) of a vector of action and probability
  pairs and of a vector of doubles. \<^verbatim>\<open>verbose_\<close> is false: nothing is printed.
\<close>

record ('s, 'w) MCTSBot = "'s State_ops" +
  kChancePlayerId :: Player
  uct_c :: real
  max_simulations :: int
  max_memory :: int
  solve :: bool
  max_utility :: real
  Prior :: "'s \<Rightarrow> ActionsAndProbs"
  evaluate :: "'s \<Rightarrow> 'w \<Rightarrow> real list \<times> 'w"
  shuffle :: "ActionsAndProbs \<Rightarrow> 'w \<Rightarrow> ActionsAndProbs \<times> 'w"
  uniform_real :: "'w \<Rightarrow> real \<times> 'w"
  VectorMemory_prior :: "ActionsAndProbs \<Rightarrow> int"
  VectorMemory_doubles :: "real list \<Rightarrow> int"

subsection \<open>\<^verbatim>\<open>MCTSBot::ApplyTreePolicy\<close>\<close>

text \<open>
  The expansion of a node that has no children: \<^verbatim>\<open>if (current_node->children.empty())\<close>.
  The result is the node, the state of the generator and \<^verbatim>\<open>memory_used_\<close>.
\<close>

definition Expand ::
  "('s, 'w) MCTSBot \<Rightarrow> SearchNode \<Rightarrow> 's \<Rightarrow> 'w \<Rightarrow> int \<Rightarrow> SearchNode \<times> 'w \<times> int" where
  "Expand mcts current_node working_state w memory_used =
     (if children current_node = [] then
        (case shuffle mcts (Prior mcts working_state) w of
           (legal_actions, w') \<Rightarrow>
             (set_children
                (map (\<lambda>(a, pr). new_SearchNode a (CurrentPlayer mcts working_state) pr) legal_actions)
                current_node,
              w',
              memory_used + VectorMemory_prior mcts legal_actions))
      else (current_node, w, memory_used))"

text \<open>
  The choice of \<^verbatim>\<open>chosen_child\<close>, as an index into \<^verbatim>\<open>current_node->children\<close>, with the
  dereference \<^verbatim>\<open>chosen_child->action\<close> that follows it.
\<close>

definition ChooseChild ::
  "('s, 'w) MCTSBot \<Rightarrow> SearchNode \<Rightarrow> 's \<Rightarrow> 'w \<Rightarrow> error + (nat \<times> 'w)" where
  "ChooseChild mcts current_node working_state w =
     (if IsChanceNode mcts working_state then
        (case uniform_real mcts w of
           (rand, w') \<Rightarrow>
             (case sample_chosen_action (ChanceOutcomes mcts working_state) rand of
                Inl e \<Rightarrow> Inl e
              | Inr chosen_action \<Rightarrow>
                  (case find_child chosen_action 0 (children current_node) of
                     None \<Rightarrow> Inl NullPointer
                   | Some i \<Rightarrow> Inr (i, w'))))
      else
        (case uct_scan (uct_c mcts) (explore_count current_node) None None 0 (children current_node) of
           Inl e \<Rightarrow> Inl e
         | Inr None \<Rightarrow> Inl NullPointer
         | Inr (Some i) \<Rightarrow> Inr (i, w)))"

text \<open>
  The loop of \<^verbatim>\<open>ApplyTreePolicy\<close>, as a recursion on \<^verbatim>\<open>*current_node\<close>. The result is the
  node after the descent below it (the expansions are made in place in the source), the
  index path from it to the frontier (the pointers pushed on \<^verbatim>\<open>visit_path\<close> after it),
  the working state at the frontier, the state of the generator and \<^verbatim>\<open>memory_used_\<close>.
\<close>

function ApplyTreePolicy ::
  "('s, 'w) MCTSBot \<Rightarrow> SearchNode \<Rightarrow> 's \<Rightarrow> 'w \<Rightarrow> int \<Rightarrow>
     error + (SearchNode \<times> nat list \<times> 's \<times> 'w \<times> int)" where
  "ApplyTreePolicy mcts current_node working_state w memory_used =
     (if \<not> IsTerminal mcts working_state \<and> explore_count current_node > 0 then
        (case Expand mcts current_node working_state w memory_used of
           (node1, w1, mem1) \<Rightarrow>
             (case ChooseChild mcts node1 working_state w1 of
                Inl e \<Rightarrow> Inl e
              | Inr (i, w2) \<Rightarrow>
                  (case ApplyTreePolicy mcts (children node1 ! i)
                          (ApplyAction mcts working_state (action (children node1 ! i))) w2 mem1 of
                     Inl e \<Rightarrow> Inl e
                   | Inr (child', path, frontier_state, w', mem') \<Rightarrow>
                       Inr (set_children ((children node1)[i := child']) node1,
                            i # path, frontier_state, w', mem'))))
      else Inr (current_node, [], working_state, w, memory_used))"
  by pat_completeness auto
termination
proof (relation "measure (\<lambda>(mcts, n, s, w, m). 2 * size n + (if explore_count n > 0 then 1 else 0))",
    goal_cases)
  case 1
  show ?case by simp
next
  case (2 mcts current_node working_state w memory_used node1 y w1 mem1 b i w2)
  have find_range: "find_child a k cs = Some j \<Longrightarrow> k \<le> j \<and> j < k + length cs"
    for a k cs j
    by (induction cs arbitrary: k) (fastforce split: if_splits)+
  have uct_range:
    "uct_scan c pec mv ch k cs = Inr (Some j) \<Longrightarrow> ch = Some j \<or> (k \<le> j \<and> j < k + length cs)"
    for c pec mv ch k cs j
    by (induction cs arbitrary: mv ch k) (fastforce split: sum.splits if_splits)+
  from 2 have choose: "ChooseChild mcts node1 working_state w1 = Inr (i, w2)"
    by simp
  have i: "i < length (children node1)"
  proof (cases "IsChanceNode mcts working_state")
    case True
    with choose show ?thesis
      by (auto simp: ChooseChild_def split: prod.splits sum.splits option.splits dest: find_range)
  next
    case False
    with choose show ?thesis
      by (auto simp: ChooseChild_def split: prod.splits sum.splits option.splits dest: uct_range)
  qed
  from 2 have ex: "Expand mcts current_node working_state w memory_used = (node1, w1, mem1)"
    and pos: "explore_count current_node > 0"
    by simp_all
  show ?case
  proof (cases "children current_node = []")
    case True
    with ex i have "children node1 ! i =
        (\<lambda>(a, pr). new_SearchNode a (CurrentPlayer mcts working_state) pr)
          (fst (shuffle mcts (Prior mcts working_state) w) ! i)"
      by (cases current_node) (auto simp: Expand_def split: prod.splits)
    then have "size (children node1 ! i) = Suc 0 \<and> explore_count (children node1 ! i) = 0"
      by (simp add: new_SearchNode_def split: prod.splits)
    with pos show ?thesis
      by (cases current_node) simp
  next
    case False
    with ex have "node1 = current_node"
      by (simp add: Expand_def)
    with i have "children node1 ! i \<in> set (children current_node)"
      by simp
    then have "size (children node1 ! i) < size current_node"
      by (cases current_node) (auto simp: less_Suc_eq_le size_list_estimation')
    then show ?thesis
      by simp
  qed
qed

declare ApplyTreePolicy.simps [simp del]

subsection \<open>The backup of \<^verbatim>\<open>MCTSBot::MCTSearch\<close>\<close>

text \<open>
  The scan over the children of a decision node: \<^verbatim>\<open>best\<close> (\<open>None\<close> is \<^verbatim>\<open>nullptr\<close>) and
  \<^verbatim>\<open>all_solved\<close>. Only \<^verbatim>\<open>best->outcome\<close> is read later, so \<^verbatim>\<open>best\<close> is the child itself.
\<close>

fun decision_scan ::
  "Player \<Rightarrow> SearchNode option \<Rightarrow> bool \<Rightarrow> SearchNode list \<Rightarrow> error + (SearchNode option \<times> bool)" where
  "decision_scan p best all_solved [] = Inr (best, all_solved)"
| "decision_scan p best all_solved (child # rest) =
     (if outcome child = [] then decision_scan p best False rest
      else
        (case best of
           None \<Rightarrow> decision_scan p (Some child) all_solved rest
         | Some b \<Rightarrow>
             (case index_at (outcome child) p of
                Inl e \<Rightarrow> Inl e
              | Inr x \<Rightarrow>
                  (case index_at (outcome b) p of
                     Inl e \<Rightarrow> Inl e
                   | Inr y \<Rightarrow>
                       if x > y then decision_scan p (Some child) all_solved rest
                       else decision_scan p best all_solved rest))))"

text \<open>
  The body of the loop \<^verbatim>\<open>for (auto it = visit_path.rbegin(); ...)\<close> at one node: the
  node, \<^verbatim>\<open>solved\<close> and \<^verbatim>\<open>memory_used_\<close> after it.
\<close>

definition BackupNode ::
  "('s, 'w) MCTSBot \<Rightarrow> real list \<Rightarrow> SearchNode \<Rightarrow> bool \<Rightarrow> int \<Rightarrow> error + (SearchNode \<times> bool \<times> int)" where
  "BackupNode mcts returns node0 solved memory_used =
     (case index_at returns (player node0) of
        Inl e \<Rightarrow> Inl e
      | Inr r \<Rightarrow>
          (let node = add_visit r node0 in
           if solved \<and> children node \<noteq> [] then
             (let p = player (hd (children node)) in
              if p = kChancePlayerId mcts then
                (let out = outcome (hd (children node)) in
                 if out \<noteq> [] \<and> list_all (\<lambda>c. outcome c = out) (tl (children node))
                 then Inr (set_outcome out node, True, memory_used + VectorMemory_doubles mcts out)
                 else Inr (node, False, memory_used))
              else
                (case decision_scan p None True (children node) of
                   Inl e \<Rightarrow> Inl e
                 | Inr (None, all_solved) \<Rightarrow> Inr (node, False, memory_used)
                 | Inr (Some best, all_solved) \<Rightarrow>
                     if all_solved
                     then Inr (set_outcome (outcome best) node, True,
                               memory_used + VectorMemory_doubles mcts (outcome best))
                     else
                       (case index_at (outcome best) p of
                          Inl e \<Rightarrow> Inl e
                        | Inr x \<Rightarrow>
                            if x = max_utility mcts
                            then Inr (set_outcome (outcome best) node, True,
                                      memory_used + VectorMemory_doubles mcts (outcome best))
                            else Inr (node, False, memory_used))))
           else Inr (node, solved, memory_used)))"

text \<open>
  The loop over \<^verbatim>\<open>visit_path\<close> from its last pointer to its first: the frontier is backed
  up first, and each node on the path after the child the path goes through. The node
  given is the one the path starts from.
\<close>

fun Backup ::
  "('s, 'w) MCTSBot \<Rightarrow> real list \<Rightarrow> nat list \<Rightarrow> SearchNode \<Rightarrow> bool \<Rightarrow> int \<Rightarrow>
     error + (SearchNode \<times> bool \<times> int)" where
  "Backup mcts returns [] node solved memory_used = BackupNode mcts returns node solved memory_used"
| "Backup mcts returns (i # path) node solved memory_used =
     (if i < length (children node) then
        (case Backup mcts returns path (children node ! i) solved memory_used of
           Inl e \<Rightarrow> Inl e
         | Inr (child', solved', mem') \<Rightarrow>
             BackupNode mcts returns (set_children ((children node)[i := child']) node) solved' mem')
      else Inl BadPath)"

text \<open>\<^verbatim>\<open>visit_path[visit_path.size() - 1]->outcome = returns;\<close>\<close>

fun set_frontier_outcome :: "real list \<Rightarrow> nat list \<Rightarrow> SearchNode \<Rightarrow> SearchNode" where
  "set_frontier_outcome returns [] node = set_outcome returns node"
| "set_frontier_outcome returns (i # path) node =
     (if i < length (children node)
      then set_children ((children node)[i := set_frontier_outcome returns path (children node ! i)]) node
      else node)"

subsection \<open>\<^verbatim>\<open>MCTSBot::MCTSearch\<close> and \<^verbatim>\<open>MCTSBot::Step\<close>\<close>

text \<open>One pass of the loop of \<^verbatim>\<open>MCTSearch\<close>, up to the test that leaves the loop.\<close>

definition Simulation ::
  "('s, 'w) MCTSBot \<Rightarrow> 's \<Rightarrow> SearchNode \<Rightarrow> 'w \<Rightarrow> int \<Rightarrow> error + (SearchNode \<times> 'w \<times> int)" where
  "Simulation mcts state root_node w memory_used =
     (case ApplyTreePolicy mcts root_node state w memory_used of
        Inl e \<Rightarrow> Inl e
      | Inr (root_node1, visit_path, working_state, w1, mem1) \<Rightarrow>
          if IsTerminal mcts working_state then
            (let returns = Returns mcts working_state in
             case Backup mcts returns visit_path (set_frontier_outcome returns visit_path root_node1)
                    (solve mcts) (mem1 + VectorMemory_doubles mcts returns) of
               Inl e \<Rightarrow> Inl e
             | Inr (root_node2, solved, mem2) \<Rightarrow> Inr (root_node2, w1, mem2))
          else
            (case evaluate mcts working_state w1 of
               (returns, w2) \<Rightarrow>
                 (case Backup mcts returns visit_path root_node1 False mem1 of
                    Inl e \<Rightarrow> Inl e
                  | Inr (root_node2, solved, mem2) \<Rightarrow> Inr (root_node2, w2, mem2))))"

text \<open>
  The loop \<^verbatim>\<open>for (int i = 0; i < max_simulations_; ++i)\<close>; the first argument after the
  state is the number of passes left.
\<close>

fun MCTSearch_loop ::
  "('s, 'w) MCTSBot \<Rightarrow> 's \<Rightarrow> nat \<Rightarrow> SearchNode \<Rightarrow> 'w \<Rightarrow> int \<Rightarrow> error + (SearchNode \<times> 'w \<times> int)" where
  "MCTSearch_loop mcts state 0 root_node w memory_used = Inr (root_node, w, memory_used)"
| "MCTSearch_loop mcts state (Suc k) root_node w memory_used =
     (case Simulation mcts state root_node w memory_used of
        Inl e \<Rightarrow> Inl e
      | Inr (root_node', w', mem') \<Rightarrow>
          if outcome root_node' \<noteq> [] \<or> (max_memory mcts \<noteq> 0 \<and> mem' \<ge> max_memory mcts)
          then Inr (root_node', w', mem')
          else MCTSearch_loop mcts state k root_node' w' mem')"

definition MCTSearch ::
  "('s, 'w) MCTSBot \<Rightarrow> 's \<Rightarrow> 'w \<Rightarrow> error + (SearchNode \<times> 'w \<times> int)" where
  "MCTSearch mcts state w =
     MCTSearch_loop mcts state (nat (max_simulations mcts))
       (new_SearchNode (- 1) (CurrentPlayer mcts state) 1) w 0"

text \<open>
  \<^verbatim>\<open>Step\<close> returns \<^verbatim>\<open>{{{best.action, 1.0}}, best.action}\<close>; the model returns the state
  of the generator with it.
\<close>

definition Step ::
  "('s, 'w) MCTSBot \<Rightarrow> 's \<Rightarrow> 'w \<Rightarrow> error + ((ActionsAndProbs \<times> Action) \<times> 'w)" where
  "Step mcts state w =
     (case MCTSearch mcts state w of
        Inl e \<Rightarrow> Inl e
      | Inr (root_node, w', mem) \<Rightarrow>
          (case BestChild root_node of
             Inl e \<Rightarrow> Inl e
           | Inr i \<Rightarrow>
               (let best = children root_node ! i
                in Inr (([(action best, 1)], action best), w'))))"

subsection \<open>Example games\<close>

text \<open>
  A game of two players with terminal rewards. At \<open>S0\<close> player 0 moves to \<open>SN\<close> (action
  0) or to \<open>SM\<close> (action 1); at \<open>SN\<close> player 1 moves to the terminal state \<open>SY\<close>
  (action 0, returns \<open>[-1, 1]\<close>) or to the terminal state \<open>SX\<close> (action 1, returns
  \<open>[0, 1]\<close>); at \<open>SM\<close> player 1 has one move, to \<open>SX\<close>. The maximum utility is 1.
\<close>

datatype tie_state = S0 | SN | SM | SX | SY

fun tie_apply :: "tie_state \<Rightarrow> Action \<Rightarrow> tie_state" where
  "tie_apply S0 a = (if a = 0 then SN else SM)"
| "tie_apply SN a = (if a = 0 then SY else SX)"
| "tie_apply SM a = SX"
| "tie_apply SX a = SX"
| "tie_apply SY a = SY"

fun tie_returns :: "tie_state \<Rightarrow> real list" where
  "tie_returns SX = [0, 1]"
| "tie_returns SY = [- 1, 1]"
| "tie_returns s = [0, 0]"

text \<open>
  An evaluator for it: every state is worth 0 to both players, and the prior prefers
  action 0 at \<open>S0\<close> and action 1 at \<open>SN\<close>.
\<close>

fun tie_prior :: "tie_state \<Rightarrow> ActionsAndProbs" where
  "tie_prior S0 = [(0, 1), (1, 0)]"
| "tie_prior SN = [(0, 1 / 4), (1, 3 / 4)]"
| "tie_prior SM = [(0, 1)]"
| "tie_prior s = []"

text \<open>
  The bot on this game, with the solver on, \<^verbatim>\<open>uct_c = 4\<close>, no memory cap, and a generator
  whose shuffle leaves the order as it is. The argument is \<^verbatim>\<open>max_simulations\<close>.
\<close>

definition tie_bot :: "int \<Rightarrow> (tie_state, unit) MCTSBot" where
  "tie_bot sims =
     \<lparr> IsTerminal = (\<lambda>s. s = SX \<or> s = SY),
       IsChanceNode = (\<lambda>s. False),
       CurrentPlayer = (\<lambda>s. if s = S0 then 0 else 1),
       ChanceOutcomes = (\<lambda>s. []),
       ApplyAction = tie_apply,
       Returns = tie_returns,
       kChancePlayerId = - 1,
       uct_c = 4,
       max_simulations = sims,
       max_memory = 0,
       solve = True,
       max_utility = 1,
       Prior = tie_prior,
       evaluate = (\<lambda>s w. ([0, 0], w)),
       shuffle = (\<lambda>xs w. (xs, w)),
       uniform_real = (\<lambda>w. (0, w)),
       VectorMemory_prior = (\<lambda>xs. 16 * int (length xs)),
       VectorMemory_doubles = (\<lambda>xs. 8 * int (length xs)) \<rparr>"

text \<open>A chance distribution with two outcomes of probability one half.\<close>

definition coin :: ActionsAndProbs where
  "coin = [(0, 1 / 2), (1, 1 / 2)]"

text \<open>
  A chance node \<open>Toss\<close> with that distribution: outcome 0 leads to the terminal state
  \<open>Heads\<close>, outcome 1 to the terminal state \<open>Tails\<close>. The argument of the bot is the
  number its generator draws. \<open>coin_node\<close> is the node of \<open>Toss\<close> in a tree, visited
  once and expanded, below a move of player 0.
\<close>

datatype coin_state = Toss | Heads | Tails

definition coin_bot :: "real \<Rightarrow> (coin_state, unit) MCTSBot" where
  "coin_bot draw =
     \<lparr> IsTerminal = (\<lambda>s. s \<noteq> Toss),
       IsChanceNode = (\<lambda>s. s = Toss),
       CurrentPlayer = (\<lambda>s. - 1),
       ChanceOutcomes = (\<lambda>s. coin),
       ApplyAction = (\<lambda>s a. if a = 0 then Heads else Tails),
       Returns = (\<lambda>s. if s = Heads then [1, - 1] else [- 1, 1]),
       kChancePlayerId = - 1,
       uct_c = 1,
       max_simulations = 2,
       max_memory = 0,
       solve = False,
       max_utility = 1,
       Prior = (\<lambda>s. coin),
       evaluate = (\<lambda>s w. ([0, 0], w)),
       shuffle = (\<lambda>xs w. (xs, w)),
       uniform_real = (\<lambda>w. (draw, w)),
       VectorMemory_prior = (\<lambda>xs. 16 * int (length xs)),
       VectorMemory_doubles = (\<lambda>xs. 8 * int (length xs)) \<rparr>"

definition coin_node :: SearchNode where
  "coin_node =
     SearchNode (- 1) 0 1 1 0 []
       [SearchNode 0 (- 1) (1 / 2) 0 0 [] [], SearchNode 1 (- 1) (1 / 2) 0 0 [] []]"

subsection \<open>The order on children, in the words of the specification\<close>

text \<open>
  The key \<open>(out, explore_count, total_reward)\<close> of a node, with \<open>out = 0\<close> when the
  outcome is empty and \<open>out = outcome[player]\<close> otherwise, and the strict lexicographic
  order on keys.
\<close>

definition final_key :: "SearchNode \<Rightarrow> real \<times> int \<times> real" where
  "final_key n =
     (if outcome n = [] then 0 else outcome n ! nat (player n), explore_count n, total_reward n)"

definition key_less :: "real \<times> int \<times> real \<Rightarrow> real \<times> int \<times> real \<Rightarrow> bool" where
  "key_less k k' =
     (case k of (out, ec, tr) \<Rightarrow> case k' of (out', ec', tr') \<Rightarrow>
        out < out' \<or> (out = out' \<and> (ec < ec' \<or> (ec = ec' \<and> tr < tr'))))"

text \<open>A node whose second and third child have the same key, above the key of the first.\<close>

definition tied_node :: SearchNode where
  "tied_node =
     SearchNode (- 1) 0 1 6 2 []
       [SearchNode 0 0 (1 / 2) 1 0 [] [],
        SearchNode 1 0 (1 / 4) 2 1 [] [],
        SearchNode 2 0 (1 / 4) 2 1 [] []]"

text \<open>The trees of the bot \<open>tie_bot\<close> at \<open>S0\<close> after one, two, three and four simulations.\<close>

definition tie_tree1 :: SearchNode where
  "tie_tree1 = SearchNode (- 1) 0 1 1 0 [] []"

definition tie_tree2 :: SearchNode where
  "tie_tree2 = SearchNode (- 1) 0 1 2 0 [] [SearchNode 0 0 1 1 0 [] [], SearchNode 1 0 0 0 0 [] []]"

definition tie_tree3 :: SearchNode where
  "tie_tree3 =
     SearchNode (- 1) 0 1 3 0 []
       [SearchNode 0 0 1 2 0 [0, 1]
          [SearchNode 0 1 (1 / 4) 0 0 [] [], SearchNode 1 1 (3 / 4) 1 1 [0, 1] []],
        SearchNode 1 0 0 0 0 [] []]"

definition tie_tree4 :: SearchNode where
  "tie_tree4 =
     SearchNode (- 1) 0 1 4 (- 1) []
       [SearchNode 0 0 1 3 (- 1) [- 1, 1]
          [SearchNode 0 1 (1 / 4) 1 1 [- 1, 1] [], SearchNode 1 1 (3 / 4) 1 1 [0, 1] []],
        SearchNode 1 0 0 0 0 [] []]"

text \<open>
  A node whose children carry the chance player \<open>- 1\<close> and the same proven outcome, and
  a node of player 0's choices: the first, third and fourth child are proven, the third
  is the first of the two that are worth 1 to player 0.
\<close>

definition chance_parent :: SearchNode where
  "chance_parent =
     SearchNode 0 0 1 1 1 []
       [SearchNode 0 (- 1) (1 / 2) 1 1 [1, - 1] [], SearchNode 1 (- 1) (1 / 2) 0 0 [1, - 1] []]"

definition decision_parent :: SearchNode where
  "decision_parent =
     SearchNode 0 1 1 3 0 []
       [SearchNode 0 0 (1 / 4) 1 0 [0, 0] [],
        SearchNode 1 0 (1 / 4) 0 0 [] [],
        SearchNode 2 0 (1 / 4) 1 1 [1, - 1] [],
        SearchNode 3 0 (1 / 4) 1 1 [1, 0] []]"

subsection \<open>The nodes of a tree and what a search keeps true of them\<close>

text \<open>
  The node an index path leads to, and the game state of that node: the state of the
  root after the actions of the nodes on the path.
\<close>

fun subtree :: "SearchNode \<Rightarrow> nat list \<Rightarrow> SearchNode option" where
  "subtree n [] = Some n"
| "subtree n (i # path) = (if i < length (children n) then subtree (children n ! i) path else None)"

fun state_at :: "('s, 'w) MCTSBot \<Rightarrow> 's \<Rightarrow> SearchNode \<Rightarrow> nat list \<Rightarrow> 's" where
  "state_at mcts s n [] = s"
| "state_at mcts s n (i # path) =
     state_at mcts (ApplyAction mcts s (action (children n ! i))) (children n ! i) path"

text \<open>
  What holds of every node between two simulations, for the state \<open>s\<close> of the node: the
  visit count is not negative; the node has children exactly when it has been visited
  twice and its state is not terminal; a node with an outcome and no children is a
  terminal state with its returns; and the same holds of the children, each for the state
  its action leads to.
\<close>

fun consistent :: "('s, 'w) MCTSBot \<Rightarrow> 's \<Rightarrow> SearchNode \<Rightarrow> bool" where
  "consistent mcts s (SearchNode a p pr ec tr out cs) =
     (0 \<le> ec \<and>
      (cs \<noteq> [] \<longleftrightarrow> 2 \<le> ec \<and> \<not> IsTerminal mcts s) \<and>
      (cs = [] \<and> out \<noteq> [] \<longrightarrow> IsTerminal mcts s \<and> out = Returns mcts s) \<and>
      (\<forall>c\<in>set cs. consistent mcts (ApplyAction mcts s (action c)) c))"

text \<open>
  What holds between the descent and the backup of one simulation, for the index path of
  the frontier: the frontier and the nodes off the path are as \<open>consistent\<close> says, the
  frontier is a terminal state or a node never visited, and a node on the path above it
  is not terminal, has been visited and has the child the path goes on with.
\<close>

fun descended :: "('s, 'w) MCTSBot \<Rightarrow> 's \<Rightarrow> nat list \<Rightarrow> SearchNode \<Rightarrow> bool" where
  "descended mcts s [] n = (consistent mcts s n \<and> (IsTerminal mcts s \<or> explore_count n = 0))"
| "descended mcts s (i # path) n =
     (\<not> IsTerminal mcts s \<and> 1 \<le> explore_count n \<and> i < length (children n) \<and>
      descended mcts (ApplyAction mcts s (action (children n ! i))) path (children n ! i) \<and>
      (\<forall>j<length (children n). j \<noteq> i \<longrightarrow>
         consistent mcts (ApplyAction mcts s (action (children n ! j))) (children n ! j)))"

text \<open>
  A node and the same node at a later time: the action, the player and the prior are
  the same, the visit count has not gone down, a non-empty outcome is still non-empty,
  a node that had an outcome and no children has them both unchanged, and the children,
  once there are some, are the same children at a later time.
\<close>

fun evolves :: "SearchNode \<Rightarrow> SearchNode \<Rightarrow> bool" where
  "evolves (SearchNode a p pr ec tr out cs) n' =
     (action n' = a \<and> player n' = p \<and> prior n' = pr \<and> ec \<le> explore_count n' \<and>
      (out \<noteq> [] \<longrightarrow> outcome n' \<noteq> []) \<and>
      (cs = [] \<and> out \<noteq> [] \<longrightarrow> outcome n' = out \<and> children n' = []) \<and>
      (cs = [] \<or> list_all2 evolves cs (children n')))"

section \<open>Properties\<close>

subsection \<open>\<^verbatim>\<open>SearchNode::Value\<close>\<close>

lemma Value_unproven:
  "Value (SearchNode a p pr ec tr [] cs) pec c =
     Inr ((if ec \<noteq> 0 then tr / real_of_int ec else 0) +
          c * pr * sqrt (real_of_int pec) / real_of_int (ec + 1))"
  by (simp add: Value_def)




subsection \<open>Chance sampling\<close>

text \<open>
  What the scan of the source selects, for probabilities that are not negative and a
  draw \<open>rand\<close> with \<open>p\<^sub>0 + \<dots> + p\<^sub>k\<^sub>-\<^sub>1 < rand \<le> p\<^sub>0 + \<dots> + p\<^sub>k\<close>: the outcome after
  outcome \<open>k\<close>, and when \<open>k\<close> is the last index the read is past the end.
\<close>

lemma prefix_sum_mono:
  assumes "\<forall>j<length xs. 0 \<le> snd (xs ! j)" "i \<le> k" "k \<le> length xs"
  shows "sum_list (map snd (take i xs)) \<le> sum_list (map snd (take k (xs :: ActionsAndProbs)))"
  using assms(2,3)
proof (induction k)
  case 0
  then show ?case by simp
next
  case (Suc k)
  show ?case
  proof (cases "i = Suc k")
    case True
    then show ?thesis by simp
  next
    case False
    with Suc.prems have "i \<le> k" "k < length xs"
      by simp_all
    with Suc.IH have "sum_list (map snd (take i xs)) \<le> sum_list (map snd (take k xs))"
      by simp
    moreover have "0 \<le> snd (xs ! k)"
      using assms(1) \<open>k < length xs\<close> by simp
    ultimately show ?thesis
      using \<open>k < length xs\<close> by (simp add: take_Suc_conv_app_nth)
  qed
qed

lemma cdf_scan_prefix:
  assumes nonneg: "\<forall>j<length outcomes. 0 \<le> snd (outcomes ! j)"
    and k: "k < length outcomes"
    and lo: "sum_list (map snd (take k outcomes)) < rand"
    and hi: "rand \<le> sum_list (map snd (take (Suc k) outcomes))"
    and i: "i \<le> k"
  shows "cdf_scan outcomes rand (sum_list (map snd (take i outcomes))) i = Inr (Suc k)"
  using i
proof (induction "k - i" arbitrary: i)
  case 0
  then have ik: "i = k" by simp
  have "cdf_scan outcomes rand (sum_list (map snd (take k outcomes))) k =
      cdf_scan outcomes rand (sum_list (map snd (take (Suc k) outcomes))) (Suc k)"
    using lo k by (subst cdf_scan.simps) (simp add: take_Suc_conv_app_nth)
  also have "\<dots> = Inr (Suc k)"
    using hi by (subst cdf_scan.simps) simp
  finally show ?case
    by (simp add: ik)
next
  case (Suc d)
  then have ik: "i < k" "d = k - Suc i" "Suc i \<le> k"
    by simp_all
  have "sum_list (map snd (take i outcomes)) \<le> sum_list (map snd (take k outcomes))"
    using nonneg ik k by (intro prefix_sum_mono) simp_all
  with lo have "sum_list (map snd (take i outcomes)) < rand"
    by simp
  moreover have "i < length outcomes"
    using ik k by simp
  ultimately have "cdf_scan outcomes rand (sum_list (map snd (take i outcomes))) i =
      cdf_scan outcomes rand (sum_list (map snd (take (Suc i) outcomes))) (Suc i)"
    by (subst cdf_scan.simps) (simp add: take_Suc_conv_app_nth)
  with Suc.hyps(1) [OF ik(2) ik(3)] show ?case
    by simp
qed

lemma chance_scan_selects_successor:
  assumes "\<forall>j<length outcomes. 0 \<le> snd (outcomes ! j)"
    and "k < length outcomes"
    and "sum_list (map snd (take k outcomes)) < rand"
    and "rand \<le> sum_list (map snd (take (Suc k) outcomes))"
  shows "sample_chosen_action outcomes rand =
           (if Suc k < length outcomes then Inr (fst (outcomes ! Suc k)) else Inl OutOfRange)"
  using cdf_scan_prefix [OF assms, of 0] by (simp add: sample_chosen_action_def)

text \<open>
  Claim C1 at the distribution \<open>coin\<close> and the draw \<open>1 / 4\<close>. The claim selects the
  first outcome, action 0, since \<open>0 < 1 / 4 \<le> 1 / 2\<close>. The scan of the source adds the
  first probability, then increments \<^verbatim>\<open>index\<close> before it tests the sum again, and
  selects the second outcome, action 1; the descent from the chance node \<open>Toss\<close> goes on
  into the second child, to \<open>Tails\<close>.
\<close>

theorem chance_scan_selects_next_outcome:
  "sample_chosen_action coin (1 / 4) = Inr 1 \<and>
   ApplyTreePolicy (coin_bot (1 / 4)) coin_node Toss () 0 = Inr (coin_node, [1], Tails, (), 0)"
  by (simp add: sample_chosen_action_def coin_def cdf_scan.simps ApplyTreePolicy.simps
      Expand_def ChooseChild_def coin_bot_def coin_node_def)

text \<open>
  Claim C2 at the distribution \<open>coin\<close> and the draw \<open>3 / 4\<close>. The scan leaves
  \<^verbatim>\<open>index = 2\<close>, and \<^verbatim>\<open>outcomes[2]\<close> is read past the end of a vector of two outcomes:
  the descent from the chance node \<open>Toss\<close> has no defined result.
\<close>

theorem chance_scan_reads_past_the_end:
  "sample_chosen_action coin (3 / 4) = Inl OutOfRange \<and>
   ApplyTreePolicy (coin_bot (3 / 4)) coin_node Toss () 0 = Inl OutOfRange"
  by (simp add: sample_chosen_action_def coin_def cdf_scan.simps ApplyTreePolicy.simps
      Expand_def ChooseChild_def coin_bot_def coin_node_def)

subsection \<open>The example game, run\<close>

lemma tie_bot_fields [simp]:
  "IsTerminal (tie_bot k) = (\<lambda>s. s = SX \<or> s = SY)"
  "IsChanceNode (tie_bot k) = (\<lambda>s. False)"
  "CurrentPlayer (tie_bot k) = (\<lambda>s. if s = S0 then 0 else 1)"
  "ApplyAction (tie_bot k) = tie_apply"
  "Returns (tie_bot k) = tie_returns"
  "kChancePlayerId (tie_bot k) = - 1"
  "uct_c (tie_bot k) = 4"
  "max_simulations (tie_bot k) = k"
  "max_memory (tie_bot k) = 0"
  "solve (tie_bot k) = True"
  "max_utility (tie_bot k) = 1"
  "Prior (tie_bot k) = tie_prior"
  "evaluate (tie_bot k) = (\<lambda>s w. ([0, 0], w))"
  "shuffle (tie_bot k) = (\<lambda>xs w. (xs, w))"
  "VectorMemory_prior (tie_bot k) = (\<lambda>xs. 16 * int (length xs))"
  "VectorMemory_doubles (tie_bot k) = (\<lambda>xs. 8 * int (length xs))"
  by (simp_all add: tie_bot_def)

lemmas run_simps =
  ApplyTreePolicy.simps Simulation_def Expand_def ChooseChild_def BackupNode_def Value_def
  index_at_def new_SearchNode_def Let_def

lemma tie_sim1: "Simulation (tie_bot k) S0 (new_SearchNode (- 1) 0 1) () 0 = Inr (tie_tree1, (), 0)"
  by (simp add: run_simps tie_tree1_def)

lemma tie_sim2: "Simulation (tie_bot k) S0 tie_tree1 () 0 = Inr (tie_tree2, (), 32)"
  by (simp add: run_simps tie_tree1_def tie_tree2_def)

lemma tie_sim3: "Simulation (tie_bot k) S0 tie_tree2 () 32 = Inr (tie_tree3, (), 96)"
  by (simp add: run_simps tie_tree2_def tie_tree3_def)

lemma tie_sim4: "Simulation (tie_bot k) S0 tie_tree3 () 96 = Inr (tie_tree4, (), 128)"
  by (simp add: run_simps tie_tree3_def tie_tree4_def)

lemma tie_outcomes [simp]:
  "outcome tie_tree1 = []" "outcome tie_tree2 = []" "outcome tie_tree3 = []" "outcome tie_tree4 = []"
  by (simp_all add: tie_tree1_def tie_tree2_def tie_tree3_def tie_tree4_def)

lemma tie_search1: "MCTSearch (tie_bot 1) S0 () = Inr (tie_tree1, (), 0)"
  by (simp add: MCTSearch_def tie_sim1)

lemma tie_search2: "MCTSearch (tie_bot 2) S0 () = Inr (tie_tree2, (), 32)"
  by (simp add: MCTSearch_def numeral_2_eq_2 tie_sim1 tie_sim2)

lemma tie_search3: "MCTSearch (tie_bot 3) S0 () = Inr (tie_tree3, (), 96)"
  by (simp add: MCTSearch_def numeral_3_eq_3 tie_sim1 tie_sim2 tie_sim3)

lemma tie_search4: "MCTSearch (tie_bot 4) S0 () = Inr (tie_tree4, (), 128)"
  by (simp add: MCTSearch_def eval_nat_numeral tie_sim1 tie_sim2 tie_sim3 tie_sim4)

lemma tie_step1: "Step (tie_bot 1) S0 () = Inl EmptyRange"
  by (simp add: Step_def tie_search1 BestChild_def tie_tree1_def)

lemma tie_step2: "Step (tie_bot 2) S0 () = Inr (([(0, 1)], 0), ())"
  by (simp add: Step_def tie_search2 BestChild_def tie_tree2_def CompareFinal_def out_of_def)

subsection \<open>\<^verbatim>\<open>SearchNode::CompareFinal\<close>, \<^verbatim>\<open>SearchNode::BestChild\<close> and \<^verbatim>\<open>MCTSBot::Step\<close>\<close>

lemma key_less_irrefl: "\<not> key_less k k"
  by (auto simp: key_less_def split: prod.splits)

lemma key_less_trans: "key_less a b \<Longrightarrow> key_less b c \<Longrightarrow> key_less a c"
  by (auto simp: key_less_def split: prod.splits)

lemma key_less_total: "\<not> key_less a b \<Longrightarrow> key_less a c \<Longrightarrow> key_less b c"
  by (auto simp: key_less_def split: prod.splits)

lemma CompareFinal_key: "CompareFinal a b = Inr lt \<Longrightarrow> lt = key_less (final_key a) (final_key b)"
  by (auto simp: CompareFinal_def out_of_def index_at_def final_key_def key_less_def
      split: sum.splits if_splits)

lemma max_element_first_maximal:
  assumes "max_element largest li i xs = Inr r"
    and "li < i" and "i + length xs = length cs"
    and "\<forall>k<length xs. cs ! (i + k) = xs ! k"
    and "cs ! li = largest"
    and "\<forall>j<i. \<not> key_less (final_key largest) (final_key (cs ! j))"
    and "\<forall>j<li. key_less (final_key (cs ! j)) (final_key largest)"
  shows "r < length cs \<and>
         (\<forall>j<length cs. \<not> key_less (final_key (cs ! r)) (final_key (cs ! j))) \<and>
         (\<forall>j<r. key_less (final_key (cs ! j)) (final_key (cs ! r)))"
  using assms
proof (induction xs arbitrary: largest li i)
  case Nil
  then show ?case by auto
next
  case (Cons x xs)
  from Cons.prems(1) obtain lt where lt: "CompareFinal largest x = Inr lt"
    by (auto split: sum.splits)
  have x: "cs ! i = x"
    using Cons.prems(4) by (metis add.right_neutral length_Cons nth_Cons_0 zero_less_Suc)
  have rest: "\<forall>k<length xs. cs ! (Suc i + k) = xs ! k"
    using Cons.prems(4) by (metis add_Suc_shift length_Cons Suc_less_eq nth_Cons_Suc)
  have len: "Suc i + length xs = length cs"
    using Cons.prems(3) by simp
  show ?case
  proof (cases lt)
    case True
    with lt have less: "key_less (final_key largest) (final_key x)"
      by (auto dest: CompareFinal_key)
    from True lt Cons.prems(1) have run: "max_element x i (Suc i) xs = Inr r"
      by simp
    have a: "\<forall>j<Suc i. \<not> key_less (final_key x) (final_key (cs ! j))"
    proof (intro allI impI)
      fix j assume "j < Suc i"
      show "\<not> key_less (final_key x) (final_key (cs ! j))"
      proof (cases "j = i")
        case True
        then show ?thesis using x key_less_irrefl by simp
      next
        case False
        with \<open>j < Suc i\<close> have "j < i" by simp
        with Cons.prems(6) have "\<not> key_less (final_key largest) (final_key (cs ! j))" by simp
        with less show ?thesis
          using key_less_trans by blast
      qed
    qed
    have b: "\<forall>j<i. key_less (final_key (cs ! j)) (final_key x)"
      using Cons.prems(6) less key_less_total by blast
    show ?thesis
      by (rule Cons.IH [OF run _ len rest x a b]) simp
  next
    case False
    with lt have nless: "\<not> key_less (final_key largest) (final_key x)"
      by (auto dest: CompareFinal_key)
    from False lt Cons.prems(1) have run: "max_element largest li (Suc i) xs = Inr r"
      by simp
    have a: "\<forall>j<Suc i. \<not> key_less (final_key largest) (final_key (cs ! j))"
      using Cons.prems(6) nless x by (auto simp: less_Suc_eq)
    show ?thesis
      by (rule Cons.IH [OF run _ len rest Cons.prems(5) a Cons.prems(7)]) (use Cons.prems(2) in simp)
  qed
qed

lemma BestChild_first_maximal_aux:
  assumes "BestChild n = Inr i"
  shows "i < length (children n) \<and>
         (\<forall>j<length (children n). \<not> key_less (final_key (children n ! i)) (final_key (children n ! j))) \<and>
         (\<forall>j<i. key_less (final_key (children n ! j)) (final_key (children n ! i)))"
proof -
  from assms obtain c cs where cs: "children n = c # cs" and run: "max_element c 0 1 cs = Inr i"
    by (auto simp: BestChild_def split: list.splits)
  have "i < length (c # cs) \<and>
         (\<forall>j<length (c # cs). \<not> key_less (final_key ((c # cs) ! i)) (final_key ((c # cs) ! j))) \<and>
         (\<forall>j<i. key_less (final_key ((c # cs) ! j)) (final_key ((c # cs) ! i)))"
    using max_element_first_maximal [OF run, where cs = "c # cs"] by (simp add: key_less_irrefl)
  then show ?thesis
    unfolding cs .
qed

lemma max_element_total:
  assumes "out_of largest \<noteq> Inl OutOfRange" "\<forall>x\<in>set xs. out_of x \<noteq> Inl OutOfRange"
  shows "\<exists>r. max_element largest li i xs = Inr r"
  using assms
proof (induction xs arbitrary: largest li i)
  case Nil
  then show ?case by simp
next
  case (Cons x xs)
  have e: "e = OutOfRange" if "out_of n = Inl e" for n e
    using that by (auto simp: out_of_def index_at_def split: if_splits)
  from Cons.prems obtain u v where "out_of largest = Inr u" "out_of x = Inr v"
    by (metis e list.set_intros(1) sum.exhaust_sel sum.collapse(1))
  then obtain lt where "CompareFinal largest x = Inr lt"
    by (simp add: CompareFinal_def)
  with Cons show ?case
    by (cases lt) simp_all
qed

text \<open>
  Claim C9. When \<open>Step\<close> returns, the search has returned a root with children, the
  action returned is the action of a child of the root whose key no child's key exceeds
  in the lexicographic order on \<open>(out, explore_count, total_reward)\<close>, and the policy
  returned is that action with probability 1 and nothing else.
\<close>

theorem Step_returns_maximal_child:
  assumes "Step mcts state w = Inr ((policy, a), w')"
  shows "\<exists>root_node mem i.
           MCTSearch mcts state w = Inr (root_node, w', mem) \<and>
           i < length (children root_node) \<and>
           a = action (children root_node ! i) \<and>
           (\<forall>j<length (children root_node).
              \<not> key_less (final_key (children root_node ! i)) (final_key (children root_node ! j))) \<and>
           policy = [(a, 1)]"
proof -
  from assms obtain root_node mem i where
    search: "MCTSearch mcts state w = Inr (root_node, w', mem)" and
    best: "BestChild root_node = Inr i" and
    res: "a = action (children root_node ! i)" "policy = [(a, 1)]"
    by (auto simp: Step_def Let_def split: sum.splits)
  from BestChild_first_maximal_aux [OF best] search res show ?thesis
    by blast
qed

theorem Step_returns_maximal_child_witness:
  "Step (tie_bot 2) S0 () = Inr (([(0, 1)], 0), ()) \<and>
   (\<exists>root_node mem i.
      MCTSearch (tie_bot 2) S0 () = Inr (root_node, (), mem) \<and>
      i < length (children root_node) \<and>
      0 = action (children root_node ! i) \<and>
      (\<forall>j<length (children root_node).
         \<not> key_less (final_key (children root_node ! i)) (final_key (children root_node ! j))) \<and>
      [(0, 1)] = [(0, 1 :: real)])"
  using Step_returns_maximal_child [OF tie_step2] tie_step2 by simp

text \<open>
  Claim C10. \<open>BestChild\<close> on a node with no children dereferences the end of an empty
  range; on a node with children, whose proven outcomes all have an entry for the child's
  player, it returns a child; the child it returns has a key that no child's key
  exceeds, and every child before it has a strictly smaller key: it is the earliest of
  the maximal children. \<open>Step\<close> returns the action of the child \<open>BestChild\<close> returns for
  the root of the search.
\<close>

theorem BestChild_earliest_maximal:
  "BestChild (SearchNode act p pr ec tr out []) = Inl EmptyRange \<and>
   (children n \<noteq> [] \<and>
    (\<forall>c\<in>set (children n). outcome c = [] \<or> (0 \<le> player c \<and> nat (player c) < length (outcome c))) \<longrightarrow>
      (\<exists>i. BestChild n = Inr i)) \<and>
   (BestChild n = Inr i \<longrightarrow>
      i < length (children n) \<and>
      (\<forall>j<length (children n). \<not> key_less (final_key (children n ! i)) (final_key (children n ! j))) \<and>
      (\<forall>j<i. key_less (final_key (children n ! j)) (final_key (children n ! i)))) \<and>
   (Step mcts state w = Inr ((policy, a), w') \<longrightarrow>
      (\<exists>root_node mem k.
         MCTSearch mcts state w = Inr (root_node, w', mem) \<and>
         BestChild root_node = Inr k \<and> a = action (children root_node ! k)))"
proof (intro conjI impI)
  show "BestChild (SearchNode act p pr ec tr out []) = Inl EmptyRange"
    by (simp add: BestChild_def)
next
  assume h: "children n \<noteq> [] \<and>
    (\<forall>c\<in>set (children n). outcome c = [] \<or> (0 \<le> player c \<and> nat (player c) < length (outcome c)))"
  then obtain c cs where cs: "children n = c # cs"
    by (cases "children n") auto
  from h have "\<forall>x\<in>set (children n). out_of x \<noteq> Inl OutOfRange"
    by (auto simp: out_of_def index_at_def)
  then show "\<exists>i. BestChild n = Inr i"
    using max_element_total [of c cs 0 1] by (simp add: BestChild_def cs)
next
  assume "BestChild n = Inr i"
  from BestChild_first_maximal_aux [OF this]
  show "i < length (children n)"
    and "\<forall>j<length (children n). \<not> key_less (final_key (children n ! i)) (final_key (children n ! j))"
    and "\<forall>j<i. key_less (final_key (children n ! j)) (final_key (children n ! i))"
    by simp_all
next
  assume "Step mcts state w = Inr ((policy, a), w')"
  then show "\<exists>root_node mem k.
         MCTSearch mcts state w = Inr (root_node, w', mem) \<and>
         BestChild root_node = Inr k \<and> a = action (children root_node ! k)"
    by (auto simp: Step_def Let_def split: sum.splits)
qed

lemma tied_node_best: "BestChild tied_node = Inr 1"
  by (simp add: BestChild_def tied_node_def CompareFinal_def out_of_def)

theorem BestChild_earliest_maximal_witness:
  "BestChild (SearchNode 0 0 1 0 0 [] []) = Inl EmptyRange \<and>
   (\<exists>i. BestChild tied_node = Inr i) \<and>
   BestChild tied_node = Inr 1 \<and>
   final_key (children tied_node ! 1) = final_key (children tied_node ! 2) \<and>
   key_less (final_key (children tied_node ! 0)) (final_key (children tied_node ! 1)) \<and>
   \<not> key_less (final_key (children tied_node ! 1)) (final_key (children tied_node ! 2)) \<and>
   Step (tie_bot 2) S0 () = Inr (([(0, 1)], 0), ()) \<and>
   (\<exists>root_node mem k.
      MCTSearch (tie_bot 2) S0 () = Inr (root_node, (), mem) \<and>
      BestChild root_node = Inr k \<and> 0 = action (children root_node ! k))"
proof -
  have c: "children tied_node \<noteq> [] \<and>
    (\<forall>c\<in>set (children tied_node).
       outcome c = [] \<or> (0 \<le> player c \<and> nat (player c) < length (outcome c)))"
    by (simp add: tied_node_def)
  have l: "(2 :: nat) < length (children tied_node)" "(0 :: nat) < 1"
    by (simp_all add: tied_node_def)
  have k: "final_key (children tied_node ! 1) = final_key (children tied_node ! 2)"
    by (simp add: tied_node_def final_key_def)
  from BestChild_earliest_maximal [of 0 0 1 0 0 "[]" tied_node 1 "tie_bot 2" S0 "()" "[(0, 1)]" 0 "()"]
    c tied_node_best tie_step2 l k
  show ?thesis
    by blast
qed

subsection \<open>The backup of one node\<close>

lemma BackupNode_unsolved:
  assumes "index_at returns (player n) = Inr r"
  shows "BackupNode mcts returns n False mem = Inr (add_visit r n, False, mem)"
  using assms by (simp add: BackupNode_def)

lemma add_visit_fields [simp]:
  "action (add_visit r n) = action n"
  "player (add_visit r n) = player n"
  "prior (add_visit r n) = prior n"
  "explore_count (add_visit r n) = explore_count n + 1"
  "total_reward (add_visit r n) = total_reward n + r"
  "outcome (add_visit r n) = outcome n"
  "children (add_visit r n) = children n"
  by (cases n; simp)+

lemma set_outcome_fields [simp]:
  "action (set_outcome v n) = action n"
  "player (set_outcome v n) = player n"
  "prior (set_outcome v n) = prior n"
  "explore_count (set_outcome v n) = explore_count n"
  "total_reward (set_outcome v n) = total_reward n"
  "outcome (set_outcome v n) = v"
  "children (set_outcome v n) = children n"
  by (cases n; simp)+

lemma set_children_fields [simp]:
  "action (set_children cs n) = action n"
  "player (set_children cs n) = player n"
  "prior (set_children cs n) = prior n"
  "explore_count (set_children cs n) = explore_count n"
  "total_reward (set_children cs n) = total_reward n"
  "outcome (set_children cs n) = outcome n"
  "children (set_children cs n) = cs"
  by (cases n; simp)+

lemma all_same_outcome:
  assumes "cs \<noteq> []"
  shows "(outcome (hd cs) \<noteq> [] \<and> list_all (\<lambda>c. outcome c = outcome (hd cs)) (tl cs)) \<longleftrightarrow>
         (\<exists>v. v \<noteq> [] \<and> (\<forall>c\<in>set cs. outcome c = v))"
  using assms by (cases cs) (auto simp: list_all_iff)



lemma decision_scan_Some:
  assumes "\<forall>c\<in>set xs. outcome c \<noteq> [] \<longrightarrow> 0 \<le> p \<and> nat p < length (outcome c)"
    and "0 \<le> p \<and> nat p < length (outcome b0)"
  shows "\<exists>b pre post.
           decision_scan p (Some b0) all_solved xs =
             Inr (Some b, all_solved \<and> (\<forall>c\<in>set xs. outcome c \<noteq> [])) \<and>
           b0 # filter (\<lambda>c. outcome c \<noteq> []) xs = pre @ b # post \<and>
           (\<forall>c\<in>set pre. outcome c ! nat p < outcome b ! nat p) \<and>
           (\<forall>c\<in>set post. outcome c ! nat p \<le> outcome b ! nat p)"
  using assms
proof (induction xs arbitrary: b0 all_solved)
  case Nil
  have "[b0] = [] @ b0 # []" by simp
  then have "\<exists>pre post. [b0] = pre @ b0 # post \<and>
      (\<forall>c\<in>set pre. outcome c ! nat p < outcome b0 ! nat p) \<and>
      (\<forall>c\<in>set post. outcome c ! nat p \<le> outcome b0 ! nat p)"
    by (metis empty_iff empty_set)
  then show ?case by simp
next
  case (Cons x xs)
  have vxs: "\<forall>c\<in>set xs. outcome c \<noteq> [] \<longrightarrow> 0 \<le> p \<and> nat p < length (outcome c)"
    using Cons.prems(1) by simp
  note vb = Cons.prems(2)
  show ?case
  proof (cases "outcome x = []")
    case True
    from Cons.IH [OF vxs vb, of False] True show ?thesis
      by simp
  next
    case solved: False
    then have vx: "0 \<le> p \<and> nat p < length (outcome x)"
      using Cons.prems(1) by simp
    show ?thesis
    proof (cases "outcome x ! nat p > outcome b0 ! nat p")
      case True
      from Cons.IH [OF vxs vx, of all_solved] obtain b pre post where
        run: "decision_scan p (Some x) all_solved xs =
                Inr (Some b, all_solved \<and> (\<forall>c\<in>set xs. outcome c \<noteq> []))" and
        split: "x # filter (\<lambda>c. outcome c \<noteq> []) xs = pre @ b # post" and
        pre: "\<forall>c\<in>set pre. outcome c ! nat p < outcome b ! nat p" and
        post: "\<forall>c\<in>set post. outcome c ! nat p \<le> outcome b ! nat p"
        by blast
      have xb: "outcome x ! nat p \<le> outcome b ! nat p"
      proof (cases pre)
        case Nil
        with split show ?thesis by simp
      next
        case (Cons y ys)
        with split have "x \<in> set pre" by simp
        with pre show ?thesis by fastforce
      qed
      have 1: "b0 # x # filter (\<lambda>c. outcome c \<noteq> []) xs = (b0 # pre) @ b # post"
        using split by simp
      have 2: "\<forall>c\<in>set (b0 # pre). outcome c ! nat p < outcome b ! nat p"
        using pre xb True by auto
      have 3: "decision_scan p (Some b0) all_solved (x # xs) =
          Inr (Some b, all_solved \<and> (\<forall>c\<in>set (x # xs). outcome c \<noteq> []))"
        using run solved True vx vb by (simp add: index_at_def)
      have 4: "b0 # filter (\<lambda>c. outcome c \<noteq> []) (x # xs) = (b0 # pre) @ b # post"
        using 1 solved by simp
      from 2 3 4 post show ?thesis
        by blast
    next
      case False
      from Cons.IH [OF vxs vb, of all_solved] obtain b pre post where
        run: "decision_scan p (Some b0) all_solved xs =
                Inr (Some b, all_solved \<and> (\<forall>c\<in>set xs. outcome c \<noteq> []))" and
        split: "b0 # filter (\<lambda>c. outcome c \<noteq> []) xs = pre @ b # post" and
        pre: "\<forall>c\<in>set pre. outcome c ! nat p < outcome b ! nat p" and
        post: "\<forall>c\<in>set post. outcome c ! nat p \<le> outcome b ! nat p"
        by blast
      have 3: "decision_scan p (Some b0) all_solved (x # xs) =
          Inr (Some b, all_solved \<and> (\<forall>c\<in>set (x # xs). outcome c \<noteq> []))"
        using run solved False vx vb by (simp add: index_at_def)
      have "\<exists>pre' post'. b0 # filter (\<lambda>c. outcome c \<noteq> []) (x # xs) = pre' @ b # post' \<and>
          (\<forall>c\<in>set pre'. outcome c ! nat p < outcome b ! nat p) \<and>
          (\<forall>c\<in>set post'. outcome c ! nat p \<le> outcome b ! nat p)"
      proof (cases pre)
        case Nil
        with split have eq: "b0 = b" "post = filter (\<lambda>c. outcome c \<noteq> []) xs" by simp_all
        then have "b0 # filter (\<lambda>c. outcome c \<noteq> []) (x # xs) = [] @ b # (x # post)"
          using solved by simp
        moreover have "\<forall>c\<in>set (x # post). outcome c ! nat p \<le> outcome b ! nat p"
          using post False eq by auto
        ultimately show ?thesis
          by (metis empty_iff empty_set)
      next
        case (Cons y ys)
        with split have y: "y = b0" and rest: "filter (\<lambda>c. outcome c \<noteq> []) xs = ys @ b # post"
          by simp_all
        have "b0 # filter (\<lambda>c. outcome c \<noteq> []) (x # xs) = (b0 # x # ys) @ b # post"
          using rest solved by simp
        moreover have "\<forall>c\<in>set (b0 # x # ys). outcome c ! nat p < outcome b ! nat p"
          using pre Cons y False by auto
        ultimately show ?thesis
          using post by blast
      qed
      with 3 show ?thesis
        by blast
    qed
  qed
qed

lemma decision_scan_None:
  assumes "\<forall>c\<in>set xs. outcome c \<noteq> [] \<longrightarrow> 0 \<le> p \<and> nat p < length (outcome c)"
  shows "\<exists>best'.
           decision_scan p None all_solved xs =
             Inr (best', all_solved \<and> (\<forall>c\<in>set xs. outcome c \<noteq> [])) \<and>
           (best' = None \<longrightarrow> filter (\<lambda>c. outcome c \<noteq> []) xs = []) \<and>
           (\<forall>b. best' = Some b \<longrightarrow>
              (\<exists>pre post.
                 filter (\<lambda>c. outcome c \<noteq> []) xs = pre @ b # post \<and>
                 (\<forall>c\<in>set pre. outcome c ! nat p < outcome b ! nat p) \<and>
                 (\<forall>c\<in>set post. outcome c ! nat p \<le> outcome b ! nat p)))"
  using assms
proof (induction xs arbitrary: all_solved)
  case Nil
  then show ?case by simp
next
  case (Cons x xs)
  have vxs: "\<forall>c\<in>set xs. outcome c \<noteq> [] \<longrightarrow> 0 \<le> p \<and> nat p < length (outcome c)"
    using Cons.prems(1) by simp
  show ?case
  proof (cases "outcome x = []")
    case True
    from Cons.IH [OF vxs, of False] True show ?thesis
      by simp
  next
    case False
    then have vx: "0 \<le> p \<and> nat p < length (outcome x)"
      using Cons.prems(1) by simp
    from decision_scan_Some [OF vxs vx, of all_solved] obtain b pre post where
      "decision_scan p (Some x) all_solved xs =
         Inr (Some b, all_solved \<and> (\<forall>c\<in>set xs. outcome c \<noteq> []))"
      "x # filter (\<lambda>c. outcome c \<noteq> []) xs = pre @ b # post"
      "\<forall>c\<in>set pre. outcome c ! nat p < outcome b ! nat p"
      "\<forall>c\<in>set post. outcome c ! nat p \<le> outcome b ! nat p"
      by blast
    with False show ?thesis
      by (intro exI [of _ "Some b"]) auto
  qed
qed



subsection \<open>A simulation keeps \<open>consistent\<close> and makes the tree evolve\<close>

lemma consistent_iff:
  "consistent mcts s n \<longleftrightarrow>
     0 \<le> explore_count n \<and>
     (children n \<noteq> [] \<longleftrightarrow> 2 \<le> explore_count n \<and> \<not> IsTerminal mcts s) \<and>
     (children n = [] \<and> outcome n \<noteq> [] \<longrightarrow> IsTerminal mcts s \<and> outcome n = Returns mcts s) \<and>
     (\<forall>c\<in>set (children n). consistent mcts (ApplyAction mcts s (action c)) c)"
  by (cases n) simp

lemma evolves_iff:
  "evolves n n' \<longleftrightarrow>
     action n' = action n \<and> player n' = player n \<and> prior n' = prior n \<and>
     explore_count n \<le> explore_count n' \<and>
     (outcome n \<noteq> [] \<longrightarrow> outcome n' \<noteq> []) \<and>
     (children n = [] \<and> outcome n \<noteq> [] \<longrightarrow> outcome n' = outcome n \<and> children n' = []) \<and>
     (children n = [] \<or> list_all2 evolves (children n) (children n'))"
  by (cases n) simp

declare consistent.simps [simp del]
declare evolves.simps [simp del]

lemma evolves_refl: "evolves n n"
proof (induction n)
  case (SearchNode a p pr ec tr out cs)
  then have "list_all2 evolves cs cs"
    by (simp add: list_all2_same)
  then show ?case
    by (simp add: evolves_iff)
qed

lemma evolves_trans: "evolves a b \<Longrightarrow> evolves b c \<Longrightarrow> evolves a c"
proof (induction a arbitrary: b c)
  case (SearchNode act p pr ec tr out cs)
  let ?a = "SearchNode act p pr ec tr out cs"
  from SearchNode.prems have ab: "evolves ?a b" and bc: "evolves b c"
    by simp_all
  have kids: "cs = [] \<or> list_all2 evolves cs (children c)"
  proof (cases "cs = []")
    case True
    then show ?thesis by simp
  next
    case False
    with ab have 1: "list_all2 evolves cs (children b)"
      by (simp add: evolves_iff)
    with False have "children b \<noteq> []"
      by auto
    with bc have 2: "list_all2 evolves (children b) (children c)"
      by (simp add: evolves_iff)
    have "list_all2 evolves cs (children c)"
      unfolding list_all2_conv_all_nth
    proof (intro conjI allI impI)
      show "length cs = length (children c)"
        using 1 2 by (simp add: list_all2_lengthD)
    next
      fix i assume "i < length cs"
      then have "cs ! i \<in> set cs" "evolves (cs ! i) (children b ! i)"
        "evolves (children b ! i) (children c ! i)"
        using 1 2 by (simp_all add: list_all2_conv_all_nth)
      then show "evolves (cs ! i) (children c ! i)"
        using SearchNode.IH by blast
    qed
    then show ?thesis by simp
  qed
  from ab bc kids show ?case
    by (auto simp: evolves_iff [of ?a] evolves_iff [of b])
qed

lemma find_child_range: "find_child a k cs = Some j \<Longrightarrow> k \<le> j \<and> j < k + length cs"
  by (induction cs arbitrary: k) (fastforce split: if_splits)+

lemma uct_scan_range:
  "uct_scan c pec mv ch k cs = Inr (Some j) \<Longrightarrow> ch = Some j \<or> (k \<le> j \<and> j < k + length cs)"
  by (induction cs arbitrary: mv ch k) (fastforce split: sum.splits if_splits)+

lemma ChooseChild_range:
  assumes "ChooseChild mcts n s w = Inr (i, w')"
  shows "i < length (children n)"
proof (cases "IsChanceNode mcts s")
  case True
  with assms show ?thesis
    by (auto simp: ChooseChild_def split: prod.splits sum.splits option.splits dest: find_child_range)
next
  case False
  with assms show ?thesis
    by (auto simp: ChooseChild_def split: prod.splits sum.splits option.splits dest: uct_scan_range)
qed

lemma Expand_eq:
  "Expand mcts n s w m =
     (if children n = [] then
        (set_children
           (map (\<lambda>(a, pr). new_SearchNode a (CurrentPlayer mcts s) pr)
              (fst (shuffle mcts (Prior mcts s) w))) n,
         snd (shuffle mcts (Prior mcts s) w),
         m + VectorMemory_prior mcts (fst (shuffle mcts (Prior mcts s) w)))
      else (n, w, m))"
  by (simp add: Expand_def split: prod.splits)

lemma Expand_old:
  assumes "Expand mcts n s w m = (n1, w1, m1)" "children n \<noteq> []"
  shows "n1 = n"
  using assms by (simp add: Expand_eq)

lemma Expand_new:
  assumes "Expand mcts n s w m = (n1, w1, m1)" "children n = []"
  shows "n1 = set_children
           (map (\<lambda>(a, pr). new_SearchNode a (CurrentPlayer mcts s) pr)
              (fst (shuffle mcts (Prior mcts s) w))) n"
  using assms(1) [symmetric] assms(2) by (simp add: Expand_eq)

lemma Expand_fields:
  assumes "Expand mcts n s w m = (n1, w1, m1)"
  shows "action n1 = action n" "player n1 = player n" "prior n1 = prior n"
    "explore_count n1 = explore_count n" "total_reward n1 = total_reward n"
    "outcome n1 = outcome n"
proof -
  have "action n1 = action n \<and> player n1 = player n \<and> prior n1 = prior n \<and>
    explore_count n1 = explore_count n \<and> total_reward n1 = total_reward n \<and>
    outcome n1 = outcome n"
  proof (cases "children n = []")
    case True
    show ?thesis
      by (simp add: Expand_new [OF assms True])
  next
    case False
    show ?thesis
      by (simp add: Expand_old [OF assms False])
  qed
  then show "action n1 = action n" "player n1 = player n" "prior n1 = prior n"
    "explore_count n1 = explore_count n" "total_reward n1 = total_reward n"
    "outcome n1 = outcome n"
    by simp_all
qed

lemma Expand_fresh:
  assumes "Expand mcts n s w m = (n1, w1, m1)" "children n = []" "c \<in> set (children n1)"
  shows "explore_count c = 0 \<and> total_reward c = 0 \<and> outcome c = [] \<and> children c = [] \<and>
         player c = CurrentPlayer mcts s"
proof -
  let ?f = "\<lambda>(a, pr). new_SearchNode a (CurrentPlayer mcts s) pr"
  have "children n1 = map ?f (fst (shuffle mcts (Prior mcts s) w))"
    by (simp add: Expand_new [OF assms(1,2)])
  with assms(3) have "c \<in> ?f ` set (fst (shuffle mcts (Prior mcts s) w))"
    by simp
  then obtain x where "c = ?f x"
    by (rule imageE)
  then show ?thesis
    by (cases x) (simp add: new_SearchNode_def)
qed

lemma fresh_consistent:
  assumes "explore_count c = 0" "children c = []" "outcome c = []"
  shows "consistent mcts s c"
  using assms by (simp add: consistent_iff [of _ _ c])

lemma ApplyTreePolicy_spec:
  assumes "ApplyTreePolicy mcts n s w m = Inr (n', path, sf, w', m')" and "consistent mcts s n"
  shows "descended mcts s path n' \<and> evolves n n' \<and> sf = state_at mcts s n' path \<and>
         action n' = action n \<and> player n' = player n \<and> prior n' = prior n \<and>
         explore_count n' = explore_count n \<and> total_reward n' = total_reward n \<and>
         outcome n' = outcome n"
  using assms
proof (induction mcts n s w m arbitrary: n' path sf w' m' rule: ApplyTreePolicy.induct)
  case (1 mcts n s w m)
  show ?case
  proof (cases "\<not> IsTerminal mcts s \<and> explore_count n > 0")
    case False
    with "1.prems"(1) have "n' = n" "path = []" "sf = s"
      by (simp_all add: ApplyTreePolicy.simps)
    moreover from False "1.prems"(2) have "IsTerminal mcts s \<or> explore_count n = 0"
      by (auto simp: consistent_iff [of _ _ n])
    ultimately show ?thesis
      using "1.prems"(2) by (simp add: evolves_refl)
  next
    case True
    obtain n1 w1 m1 where ex: "Expand mcts n s w m = (n1, w1, m1)"
      by (cases "Expand mcts n s w m") auto
    from True ex "1.prems"(1) obtain i w2 where
      ch: "ChooseChild mcts n1 s w1 = Inr (i, w2)"
      by (auto simp: ApplyTreePolicy.simps [of mcts n] split: sum.splits)
    let ?c = "children n1 ! i"
    let ?s = "ApplyAction mcts s (action ?c)"
    from True ex ch "1.prems"(1) obtain c' path' where
      rec: "ApplyTreePolicy mcts ?c ?s w2 m1 = Inr (c', path', sf, w', m')" and
      n': "n' = set_children ((children n1)[i := c']) n1" and
      path: "path = i # path'"
      by (auto simp: ApplyTreePolicy.simps [of mcts n] split: sum.splits)
    have i: "i < length (children n1)"
      using ch by (rule ChooseChild_range)
    note f = Expand_fields [OF ex]
    have kids: "\<forall>c\<in>set (children n1). consistent mcts (ApplyAction mcts s (action c)) c"
    proof (cases "children n = []")
      case True
      show ?thesis
      proof
        fix c assume "c \<in> set (children n1)"
        from Expand_fresh [OF ex True this]
        show "consistent mcts (ApplyAction mcts s (action c)) c"
          by (simp add: fresh_consistent)
      qed
    next
      case False
      then have "n1 = n" by (rule Expand_old [OF ex])
      with "1.prems"(2) show ?thesis
        by (simp add: consistent_iff [of _ _ n])
    qed
    then have c: "consistent mcts ?s ?c"
      using i by simp
    from "1.IH" [OF True ex [symmetric] refl ch refl rec c]
    have IH: "descended mcts ?s path' c'" "evolves ?c c'" "sf = state_at mcts ?s c' path'"
      "action c' = action ?c"
      by simp_all
    have d: "descended mcts s path n'"
      using True i IH kids f(4) by (simp add: path n' nth_list_update)
    have e: "evolves n n'"
    proof -
      have "children n = [] \<or> list_all2 evolves (children n) (children n')"
      proof (cases "children n = []")
        case True
        then show ?thesis by simp
      next
        case False
        then have n1: "n1 = n" by (rule Expand_old [OF ex])
        have "list_all2 evolves (children n) ((children n)[i := c'])"
          unfolding list_all2_conv_all_nth
          using IH(2) i n1 by (auto simp: nth_list_update evolves_refl)
        then show ?thesis
          by (simp add: n' n1)
      qed
      moreover from True "1.prems"(2) have "\<not> (children n = [] \<and> outcome n \<noteq> [])"
        by (auto simp: consistent_iff [of _ _ n])
      ultimately show ?thesis
        using f by (auto simp: evolves_iff [of n] n')
    qed
    show ?thesis
      using d e IH(3,4) f i by (simp add: n' path)
  qed
qed

lemma list_all2_evolves_update:
  assumes "i < length cs" "evolves (cs ! i) c'"
  shows "list_all2 evolves cs (cs[i := c'])"
  unfolding list_all2_conv_all_nth using assms by (auto simp: nth_list_update evolves_refl)

lemma set_frontier_outcome_spec:
  assumes "descended mcts s path n" "IsTerminal mcts (state_at mcts s n path)"
    and "n' = set_frontier_outcome (Returns mcts (state_at mcts s n path)) path n"
  shows "descended mcts s path n' \<and> evolves n n' \<and> action n' = action n \<and>
         explore_count n' = explore_count n"
  using assms
proof (induction path arbitrary: s n n')
  case Nil
  then have c: "consistent mcts s n" and t: "IsTerminal mcts s" and n': "n' = set_outcome (Returns mcts s) n"
    by simp_all
  from c t have kids: "children n = []"
    by (auto simp: consistent_iff [of _ _ n])
  from c t kids have out: "outcome n \<noteq> [] \<longrightarrow> outcome n = Returns mcts s"
    by (auto simp: consistent_iff [of _ _ n])
  have "consistent mcts s (set_outcome (Returns mcts s) n)"
    using c t kids
    by (simp add: consistent_iff [of _ _ n] consistent_iff [of _ _ "set_outcome (Returns mcts s) n"])
  then have "consistent mcts s n'"
    by (simp add: n')
  moreover have "evolves n n'"
    using kids out by (auto simp: evolves_iff [of n] n')
  ultimately show ?case
    using t by (simp add: n')
next
  case (Cons i path)
  let ?c = "children n ! i"
  let ?s = "ApplyAction mcts s (action ?c)"
  let ?r = "Returns mcts (state_at mcts ?s ?c path)"
  from Cons.prems(1) have i: "i < length (children n)" and d: "descended mcts ?s path ?c"
    and nt: "\<not> IsTerminal mcts s" and ec: "1 \<le> explore_count n"
    and others: "\<forall>j<length (children n). j \<noteq> i \<longrightarrow>
         consistent mcts (ApplyAction mcts s (action (children n ! j))) (children n ! j)"
    by simp_all
  from Cons.prems(2) have t: "IsTerminal mcts (state_at mcts ?s ?c path)"
    by simp
  define c' where "c' = set_frontier_outcome ?r path ?c"
  from Cons.IH [OF d t c'_def]
  have IH: "descended mcts ?s path c'" "evolves ?c c'" "action c' = action ?c"
    by simp_all
  have n': "n' = set_children ((children n)[i := c']) n"
    using Cons.prems(3) i by (simp add: c'_def)
  have "descended mcts s (i # path) n'"
    using nt ec i IH others by (simp add: n' nth_list_update)
  moreover have "evolves n n'"
    using i list_all2_evolves_update [OF i IH(2)] by (auto simp: evolves_iff [of n] n')
  moreover have "action n' = action n" "explore_count n' = explore_count n"
    by (simp_all add: n')
  ultimately show ?case
    by blast
qed

lemma decision_scan_solved:
  assumes "decision_scan p best all_solved xs = Inr (Some b, a)"
    and "\<forall>b0. best = Some b0 \<longrightarrow> outcome b0 \<noteq> []"
  shows "outcome b \<noteq> []"
  using assms
proof (induction xs arbitrary: best all_solved)
  case Nil
  then show ?case by simp
next
  case (Cons x xs)
  show ?case
  proof (cases "outcome x = []")
    case True
    with Cons.prems have "decision_scan p best False xs = Inr (Some b, a)"
      by simp
    from Cons.IH [OF this Cons.prems(2)] show ?thesis .
  next
    case False
    from Cons.prems(1) False obtain best' where
      "decision_scan p best' all_solved xs = Inr (Some b, a)" "best' = best \<or> best' = Some x"
      by (auto split: option.splits sum.splits if_splits)
    moreover from this(2) Cons.prems(2) False have "\<forall>b0. best' = Some b0 \<longrightarrow> outcome b0 \<noteq> []"
      by auto
    ultimately show ?thesis
      using Cons.IH by blast
  qed
qed

lemma BackupNode_fields:
  assumes "BackupNode mcts returns n solved mem = Inr (n', solved', mem')"
  shows "action n' = action n \<and> player n' = player n \<and> prior n' = prior n \<and>
         children n' = children n \<and> explore_count n' = explore_count n + 1 \<and>
         (children n = [] \<longrightarrow> outcome n' = outcome n) \<and>
         (outcome n \<noteq> [] \<longrightarrow> outcome n' \<noteq> [])"
proof -
  from assms obtain r where r: "index_at returns (player n) = Inr r"
    by (auto simp: BackupNode_def split: sum.splits)
  let ?n = "add_visit r n"
  have "n' = ?n \<or> (children n \<noteq> [] \<and> (\<exists>v. v \<noteq> [] \<and> n' = set_outcome v ?n))"
  proof (cases "solved \<and> children n \<noteq> []")
    case False
    with assms r show ?thesis
      by (auto simp: BackupNode_def)
  next
    case True
    show ?thesis
    proof (cases "player (hd (children n)) = kChancePlayerId mcts")
      case chance: True
      with True assms r show ?thesis
        by (auto simp: BackupNode_def Let_def split: if_splits)
    next
      case False
      with True assms r obtain best all_solved where
        scan: "decision_scan (player (hd (children n))) None True (children n) = Inr (best, all_solved)"
        by (auto simp: BackupNode_def Let_def split: sum.splits)
      show ?thesis
      proof (cases best)
        case None
        with scan False True assms r show ?thesis
          by (auto simp: BackupNode_def Let_def)
      next
        case (Some b)
        with scan have "outcome b \<noteq> []"
          using decision_scan_solved by blast
        with Some scan False True assms r show ?thesis
          by (auto simp: BackupNode_def Let_def split: if_splits sum.splits)
      qed
    qed
  qed
  then show ?thesis
    by auto
qed

lemma Backup_spec:
  assumes "Backup mcts returns path n solved mem = Inr (n', solved', mem')"
    and "descended mcts s path n"
  shows "consistent mcts s n' \<and> evolves n n' \<and> action n' = action n"
  using assms
proof (induction path arbitrary: n s n' solved' mem')
  case Nil
  then have b: "BackupNode mcts returns n solved mem = Inr (n', solved', mem')"
    and c: "consistent mcts s n" and f: "IsTerminal mcts s \<or> explore_count n = 0"
    by simp_all
  from c f have kids: "children n = []"
    by (auto simp: consistent_iff [of _ _ n])
  note bf = BackupNode_fields [OF b]
  have "consistent mcts s n'"
    using c f kids bf by (auto simp: consistent_iff [of _ _ n] consistent_iff [of _ _ n'])
  moreover have "evolves n n'"
    using kids bf by (auto simp: evolves_iff [of n])
  ultimately show ?case
    using bf by simp
next
  case (Cons i path)
  let ?c = "children n ! i"
  let ?s = "ApplyAction mcts s (action ?c)"
  from Cons.prems(2) have i: "i < length (children n)" and d: "descended mcts ?s path ?c"
    and nt: "\<not> IsTerminal mcts s" and ec: "1 \<le> explore_count n"
    and others: "\<forall>j<length (children n). j \<noteq> i \<longrightarrow>
         consistent mcts (ApplyAction mcts s (action (children n ! j))) (children n ! j)"
    by simp_all
  from Cons.prems(1) i obtain c' solved1 mem1 where
    rec: "Backup mcts returns path ?c solved mem = Inr (c', solved1, mem1)" and
    b: "BackupNode mcts returns (set_children ((children n)[i := c']) n) solved1 mem1 =
          Inr (n', solved', mem')"
    by (auto split: sum.splits)
  from Cons.IH [OF rec d]
  have IH: "consistent mcts ?s c'" "evolves ?c c'" "action c' = action ?c"
    by simp_all
  from BackupNode_fields [OF b]
  have bf: "action n' = action n" "player n' = player n" "prior n' = prior n"
    "children n' = (children n)[i := c']" "explore_count n' = explore_count n + 1"
    "outcome n \<noteq> [] \<longrightarrow> outcome n' \<noteq> []"
    by simp_all
  have "\<forall>c\<in>set (children n'). consistent mcts (ApplyAction mcts s (action c)) c"
  proof
    fix c assume "c \<in> set (children n')"
    then obtain j where j: "j < length (children n)" "c = (children n)[i := c'] ! j"
      unfolding bf(4) by (metis in_set_conv_nth length_list_update)
    show "consistent mcts (ApplyAction mcts s (action c)) c"
    proof (cases "j = i")
      case True
      with j i IH show ?thesis by simp
    next
      case False
      with j others show ?thesis by simp
    qed
  qed
  moreover from i have ne: "children n \<noteq> []"
    by auto
  ultimately have "consistent mcts s n'"
    using nt ec i bf by (simp add: consistent_iff [of _ _ n'])
  moreover have "evolves n n'"
    using ne bf list_all2_evolves_update [OF i IH(2)] by (auto simp: evolves_iff [of n])
  ultimately show ?case
    using bf by simp
qed

lemma Simulation_spec:
  assumes "Simulation mcts s t w mem = Inr (t', w', mem')" and "consistent mcts s t"
  shows "consistent mcts s t' \<and> evolves t t'"
proof -
  from assms(1) obtain t1 path sf w1 mem1 where
    atp: "ApplyTreePolicy mcts t s w mem = Inr (t1, path, sf, w1, mem1)"
    by (auto simp: Simulation_def split: sum.splits)
  from ApplyTreePolicy_spec [OF atp assms(2)]
  have d: "descended mcts s path t1" and e: "evolves t t1" and sf: "sf = state_at mcts s t1 path"
    by simp_all
  show ?thesis
  proof (cases "IsTerminal mcts sf")
    case True
    define t2 where "t2 = set_frontier_outcome (Returns mcts sf) path t1"
    from True atp assms(1) obtain solved mem2 where
      b: "Backup mcts (Returns mcts sf) path t2 (solve mcts)
            (mem1 + VectorMemory_doubles mcts (Returns mcts sf)) = Inr (t', solved, mem2)"
      by (auto simp: Simulation_def Let_def t2_def split: sum.splits)
    from set_frontier_outcome_spec [OF d, of t2] True sf
    have d2: "descended mcts s path t2" and e2: "evolves t1 t2"
      by (simp_all add: t2_def)
    from Backup_spec [OF b d2] have "consistent mcts s t'" "evolves t2 t'"
      by simp_all
    with e e2 show ?thesis
      using evolves_trans by blast
  next
    case False
    from False atp assms(1) obtain returns solved mem2 where
      b: "Backup mcts returns path t1 False mem1 = Inr (t', solved, mem2)"
      by (auto simp: Simulation_def split: sum.splits prod.splits)
    from Backup_spec [OF b d] have "consistent mcts s t'" "evolves t1 t'"
      by simp_all
    with e show ?thesis
      using evolves_trans by blast
  qed
qed

lemma MCTSearch_loop_spec:
  assumes "MCTSearch_loop mcts s k t w mem = Inr (t', w', mem')" and "consistent mcts s t"
  shows "consistent mcts s t' \<and> evolves t t'"
  using assms
proof (induction k arbitrary: t w mem)
  case 0
  then show ?case by (simp add: evolves_refl)
next
  case (Suc k)
  from Suc.prems(1) obtain t1 w1 mem1 where
    sim: "Simulation mcts s t w mem = Inr (t1, w1, mem1)"
    by (auto split: sum.splits)
  from Simulation_spec [OF sim Suc.prems(2)] have c1: "consistent mcts s t1" and e1: "evolves t t1"
    by simp_all
  show ?case
  proof (cases "outcome t1 \<noteq> [] \<or> (max_memory mcts \<noteq> 0 \<and> mem1 \<ge> max_memory mcts)")
    case True
    with sim Suc.prems(1) have "t' = t1" by auto
    with c1 e1 show ?thesis by simp
  next
    case False
    with sim Suc.prems(1) have "MCTSearch_loop mcts s k t1 w1 mem1 = Inr (t', w', mem')"
      by auto
    from Suc.IH [OF this c1] e1 show ?thesis
      using evolves_trans by blast
  qed
qed

lemma root_consistent: "consistent mcts s (new_SearchNode a p pr)"
  by (simp add: new_SearchNode_def fresh_consistent)

lemma evolves_subtree:
  assumes "evolves t t'" "subtree t path = Some n"
  shows "\<exists>n'. subtree t' path = Some n' \<and> evolves n n'"
  using assms
proof (induction path arbitrary: t t')
  case Nil
  then show ?case by simp
next
  case (Cons i path)
  from Cons.prems(2) have i: "i < length (children t)" and sub: "subtree (children t ! i) path = Some n"
    by (simp_all split: if_splits)
  from i have "children t \<noteq> []" by auto
  with Cons.prems(1) have l: "list_all2 evolves (children t) (children t')"
    by (simp add: evolves_iff [of t])
  then have "i < length (children t')" "evolves (children t ! i) (children t' ! i)"
    using i by (simp_all add: list_all2_conv_all_nth)
  with Cons.IH [OF _ sub] show ?case
    by simp
qed

lemma consistent_subtree:
  assumes "consistent mcts s t" "subtree t path = Some n"
  shows "consistent mcts (state_at mcts s t path) n"
  using assms
proof (induction path arbitrary: s t)
  case Nil
  then show ?case by simp
next
  case (Cons i path)
  from Cons.prems(2) have i: "i < length (children t)" and sub: "subtree (children t ! i) path = Some n"
    by (simp_all split: if_splits)
  from Cons.prems(1) i
  have "consistent mcts (ApplyAction mcts s (action (children t ! i))) (children t ! i)"
    by (simp add: consistent_iff [of _ _ t])
  from Cons.IH [OF this sub] show ?case
    by simp
qed

lemma tie_loop3:
  "MCTSearch_loop (tie_bot k) S0 3 (new_SearchNode (- 1) (CurrentPlayer (tie_bot k) S0) 1) () 0 =
     Inr (tie_tree3, (), 96)"
  by (simp add: numeral_3_eq_3 tie_sim1 tie_sim2 tie_sim3)

lemma tie_loop1_from3: "MCTSearch_loop (tie_bot k) S0 1 tie_tree3 () 96 = Inr (tie_tree4, (), 128)"
  by (simp add: tie_sim4)

lemma evolves_shape:
  assumes "evolves n n'" "children n \<noteq> []"
  shows "map (\<lambda>c. (action c, player c, prior c)) (children n') =
         map (\<lambda>c. (action c, player c, prior c)) (children n)"
proof -
  from assms have l: "list_all2 evolves (children n) (children n')"
    by (simp add: evolves_iff [of n])
  show ?thesis
  proof (rule nth_equalityI)
    show "length (map (\<lambda>c. (action c, player c, prior c)) (children n')) =
          length (map (\<lambda>c. (action c, player c, prior c)) (children n))"
      using l by (simp add: list_all2_lengthD)
  next
    fix i assume "i < length (map (\<lambda>c. (action c, player c, prior c)) (children n'))"
    then have i: "i < length (children n)" "i < length (children n')"
      using l by (simp_all add: list_all2_lengthD)
    with l have "evolves (children n ! i) (children n' ! i)"
      by (simp add: list_all2_conv_all_nth)
    then show "map (\<lambda>c. (action c, player c, prior c)) (children n') ! i =
               map (\<lambda>c. (action c, player c, prior c)) (children n) ! i"
      using i by (simp add: evolves_iff [of "children n ! i"])
  qed
qed

subsection \<open>Expansion\<close>

text \<open>
  Claim C4, as the code has it. At every moment between two simulations of a search
  (the tree \<open>t\<close> after any number of passes of the loop from the new root), a node has
  children exactly when it has been visited at least twice and its state is not
  terminal: the children are still empty after the simulation that first reaches the
  node (visit count 0 to 1) and are there after the simulation that visits it again (1
  to 2). And a node is expanded once: in the tree \<open>t'\<close> of any later moment of the search
  the node is still there, its visit count has not gone down, and its children, once
  there are some, are as many with the same actions, players and priors.
\<close>

theorem expansion_on_second_visit:
  assumes "MCTSearch_loop mcts state j (new_SearchNode (- 1) (CurrentPlayer mcts state) 1) w 0 =
             Inr (t, w1, mem1)"
    and "subtree t path = Some n"
  shows "(children n \<noteq> [] \<longleftrightarrow>
            2 \<le> explore_count n \<and> \<not> IsTerminal mcts (state_at mcts state t path)) \<and>
         (MCTSearch_loop mcts state k t w1 mem1 = Inr (t', w2, mem2) \<longrightarrow>
            (\<exists>n'. subtree t' path = Some n' \<and>
               explore_count n \<le> explore_count n' \<and>
               (children n \<noteq> [] \<longrightarrow>
                  map (\<lambda>c. (action c, player c, prior c)) (children n') =
                  map (\<lambda>c. (action c, player c, prior c)) (children n))))"
proof (intro conjI impI)
  from MCTSearch_loop_spec [OF assms(1) root_consistent]
  have c: "consistent mcts state t"
    by simp
  from consistent_subtree [OF c assms(2)]
  show "children n \<noteq> [] \<longleftrightarrow>
          2 \<le> explore_count n \<and> \<not> IsTerminal mcts (state_at mcts state t path)"
    by (simp add: consistent_iff [of _ _ n])
  assume "MCTSearch_loop mcts state k t w1 mem1 = Inr (t', w2, mem2)"
  from MCTSearch_loop_spec [OF this c] have "evolves t t'"
    by simp
  from evolves_subtree [OF this assms(2)] obtain n' where
    n': "subtree t' path = Some n'" "evolves n n'"
    by blast
  from n'(2) have "explore_count n \<le> explore_count n'"
    by (simp add: evolves_iff [of n])
  with n' evolves_shape [OF n'(2)]
  show "\<exists>n'. subtree t' path = Some n' \<and>
               explore_count n \<le> explore_count n' \<and>
               (children n \<noteq> [] \<longrightarrow>
                  map (\<lambda>c. (action c, player c, prior c)) (children n') =
                  map (\<lambda>c. (action c, player c, prior c)) (children n))"
    by blast
qed

theorem expansion_on_second_visit_witness:
  "MCTSearch_loop (tie_bot 4) S0 3 (new_SearchNode (- 1) (CurrentPlayer (tie_bot 4) S0) 1) () 0 =
     Inr (tie_tree3, (), 96) \<and>
   subtree tie_tree3 [0] = Some (children tie_tree3 ! 0) \<and>
   (children (children tie_tree3 ! 0) \<noteq> [] \<longleftrightarrow>
      2 \<le> explore_count (children tie_tree3 ! 0) \<and>
      \<not> IsTerminal (tie_bot 4) (state_at (tie_bot 4) S0 tie_tree3 [0])) \<and>
   MCTSearch_loop (tie_bot 4) S0 1 tie_tree3 () 96 = Inr (tie_tree4, (), 128) \<and>
   (\<exists>n'. subtree tie_tree4 [0] = Some n' \<and>
      explore_count (children tie_tree3 ! 0) \<le> explore_count n' \<and>
      (children (children tie_tree3 ! 0) \<noteq> [] \<longrightarrow>
         map (\<lambda>c. (action c, player c, prior c)) (children n') =
         map (\<lambda>c. (action c, player c, prior c)) (children (children tie_tree3 ! 0))))"
proof -
  have s: "subtree tie_tree3 [0] = Some (children tie_tree3 ! 0)"
    by (simp add: tie_tree3_def)
  note T = expansion_on_second_visit [OF tie_loop3 s, of 4 1 tie_tree4 "()" 128]
  note r1 = T [THEN conjunct1]
  note r2 = mp [OF T [THEN conjunct2] tie_loop1_from3]
  show ?thesis
    by (intro conjI tie_loop3 s r1 tie_loop1_from3 r2)
qed

text \<open>
  Claim C4 as stated fails. The first simulation of \<open>tie_bot\<close> at \<open>S0\<close> reaches the
  root as a frontier that is not terminal and takes its visit count from 0 to 1; the
  root has no children after it. The second simulation, which takes the count from 1
  to 2, creates the two children.
\<close>

theorem root_not_expanded_by_first_visit:
  "\<not> IsTerminal (tie_bot 2) S0 \<and>
   explore_count (new_SearchNode (- 1) 0 1) = 0 \<and>
   Simulation (tie_bot 2) S0 (new_SearchNode (- 1) 0 1) () 0 = Inr (tie_tree1, (), 0) \<and>
   explore_count tie_tree1 = 1 \<and>
   children tie_tree1 = [] \<and>
   Simulation (tie_bot 2) S0 tie_tree1 () 0 = Inr (tie_tree2, (), 32) \<and>
   explore_count tie_tree2 = 2 \<and>
   length (children tie_tree2) = 2"
  by (simp add: tie_sim1 tie_sim2) (simp add: tie_tree1_def tie_tree2_def new_SearchNode_def)

subsection \<open>Proven outcomes\<close>

text \<open>
  Claim C7, as the code has it. From any moment between two simulations of a search to
  any later one, a node with a non-empty outcome is still there with a non-empty
  outcome; and when it has no children, or its state is terminal, it is a terminal
  frontier: its outcome is the returns of its state and has not changed.
\<close>

theorem outcome_stays_proven:
  assumes "MCTSearch_loop mcts state j (new_SearchNode (- 1) (CurrentPlayer mcts state) 1) w 0 =
             Inr (t, w1, mem1)"
    and "MCTSearch_loop mcts state k t w1 mem1 = Inr (t', w2, mem2)"
    and "subtree t path = Some n"
    and "outcome n \<noteq> []"
  shows "\<exists>n'. subtree t' path = Some n' \<and> outcome n' \<noteq> [] \<and>
           (children n = [] \<or> IsTerminal mcts (state_at mcts state t path) \<longrightarrow>
              outcome n' = outcome n \<and> outcome n = Returns mcts (state_at mcts state t path))"
proof -
  from MCTSearch_loop_spec [OF assms(1) root_consistent]
  have c: "consistent mcts state t"
    by simp
  from MCTSearch_loop_spec [OF assms(2) c] have "evolves t t'"
    by simp
  from evolves_subtree [OF this assms(3)] obtain n' where
    n': "subtree t' path = Some n'" "evolves n n'"
    by blast
  from consistent_subtree [OF c assms(3)]
  have cn: "consistent mcts (state_at mcts state t path) n" .
  have "outcome n' \<noteq> []"
    using n'(2) assms(4) by (simp add: evolves_iff [of n])
  moreover have "outcome n' = outcome n \<and> outcome n = Returns mcts (state_at mcts state t path)"
    if "children n = [] \<or> IsTerminal mcts (state_at mcts state t path)"
  proof -
    from that cn have "children n = []"
      by (auto simp: consistent_iff [of _ _ n])
    with cn n'(2) assms(4) show ?thesis
      by (simp add: consistent_iff [of _ _ n] evolves_iff [of n])
  qed
  ultimately show ?thesis
    using n'(1) by blast
qed

theorem outcome_stays_proven_witness:
  "MCTSearch_loop (tie_bot 4) S0 3 (new_SearchNode (- 1) (CurrentPlayer (tie_bot 4) S0) 1) () 0 =
     Inr (tie_tree3, (), 96) \<and>
   MCTSearch_loop (tie_bot 4) S0 1 tie_tree3 () 96 = Inr (tie_tree4, (), 128) \<and>
   subtree tie_tree3 [0, 1] = Some (SearchNode 1 1 (3 / 4) 1 1 [0, 1] []) \<and>
   outcome (SearchNode 1 1 (3 / 4) 1 1 [0, 1] []) \<noteq> [] \<and>
   (\<exists>n'. subtree tie_tree4 [0, 1] = Some n' \<and> outcome n' \<noteq> [] \<and>
      (children (SearchNode 1 1 (3 / 4) 1 1 [0, 1] []) = [] \<or>
       IsTerminal (tie_bot 4) (state_at (tie_bot 4) S0 tie_tree3 [0, 1]) \<longrightarrow>
         outcome n' = outcome (SearchNode 1 1 (3 / 4) 1 1 [0, 1] []) \<and>
         outcome (SearchNode 1 1 (3 / 4) 1 1 [0, 1] []) =
           Returns (tie_bot 4) (state_at (tie_bot 4) S0 tie_tree3 [0, 1])))"
proof -
  have s: "subtree tie_tree3 [0, 1] = Some (SearchNode 1 1 (3 / 4) 1 1 [0, 1] [])"
    by (simp add: tie_tree3_def)
  have o: "outcome (SearchNode 1 1 (3 / 4) 1 1 [0, 1] []) \<noteq> []"
    by simp
  note r = outcome_stays_proven [OF tie_loop3 tie_loop1_from3 s o]
  show ?thesis
    by (intro conjI tie_loop3 tie_loop1_from3 s o r)
qed

text \<open>
  Claim C7 as stated fails. In the search of \<open>tie_bot\<close> with four simulations, the node
  of \<open>SN\<close> (the first child of the root) is proven in the third simulation with the
  outcome \<open>[0, 1]\<close> of its second child, which is worth the maximum utility 1 to player
  1; the fourth simulation reaches its first child, worth 1 to player 1 as well, and the
  proof attempt at \<open>SN\<close> replaces the outcome by \<open>[-1, 1]\<close>, the outcome of the first
  child.
\<close>

theorem proven_outcome_replaced:
  "MCTSearch (tie_bot 4) S0 () = Inr (tie_tree4, (), 128) \<and>
   MCTSearch_loop (tie_bot 4) S0 3 (new_SearchNode (- 1) 0 1) () 0 = Inr (tie_tree3, (), 96) \<and>
   MCTSearch_loop (tie_bot 4) S0 1 tie_tree3 () 96 = Inr (tie_tree4, (), 128) \<and>
   map_option outcome (subtree tie_tree3 [0]) = Some [0, 1] \<and>
   map_option outcome (subtree tie_tree4 [0]) = Some [- 1, 1]"
  using tie_loop3 [of 4] tie_loop1_from3 [of 4] tie_search4
  by (simp add: tie_tree3_def tie_tree4_def)

subsection \<open>The first two simulations of a search\<close>

lemma first_simulation:
  assumes "\<not> IsTerminal mcts s" "evaluate mcts s w = (v, w1)" "index_at v p = Inr r"
  shows "Simulation mcts s (new_SearchNode a p pr) w m = Inr (SearchNode a p pr 1 r [] [], w1, m)"
  using assms
  by (simp add: Simulation_def ApplyTreePolicy.simps new_SearchNode_def BackupNode_def)

lemma uct_scan_unproven:
  assumes "\<forall>c\<in>set cs. outcome c = []"
  shows "\<exists>r. uct_scan c pec mv ch k cs = Inr r \<and> ((mv = None \<and> cs \<noteq> []) \<or> ch \<noteq> None \<longrightarrow> r \<noteq> None)"
  using assms
proof (induction cs arbitrary: mv ch k)
  case Nil
  then show ?case by simp
next
  case (Cons x xs)
  then obtain val where x: "Value x pec c = Inr val"
    by (simp add: Value_def)
  from Cons.prems have xs: "\<forall>c\<in>set xs. outcome c = []"
    by simp
  show ?case
  proof (cases "case mv of None \<Rightarrow> True | Some m \<Rightarrow> val > m")
    case True
    then have "uct_scan c pec mv ch k (x # xs) = uct_scan c pec (Some val) (Some k) (Suc k) xs"
      using x by simp
    with Cons.IH [OF xs, of "Some val" "Some k" "Suc k"] show ?thesis
      by auto
  next
    case False
    then have mv: "mv \<noteq> None"
      by (auto split: option.splits)
    from False have "uct_scan c pec mv ch k (x # xs) = uct_scan c pec mv ch (Suc k) xs"
      using x by simp
    with Cons.IH [OF xs, of mv ch "Suc k"] mv show ?thesis
      by auto
  qed
qed

lemma BackupNode_leaf:
  assumes "children n = []" "index_at returns (player n) = Inr r"
  shows "BackupNode mcts returns n solved mem = Inr (add_visit r n, solved, mem)"
  using assms by (simp add: BackupNode_def)

lemma BackupNode_total:
  assumes r: "index_at returns (player n) = Inr r"
    and valid: "\<forall>c\<in>set (children n). outcome c \<noteq> [] \<longrightarrow>
        0 \<le> player (hd (children n)) \<and> nat (player (hd (children n))) < length (outcome c)"
  shows "\<exists>n' solved' mem'. BackupNode mcts returns n solved mem = Inr (n', solved', mem')"
proof (cases "solved \<and> children n \<noteq> []")
  case False
  with r show ?thesis
    by (auto simp: BackupNode_def)
next
  case True
  let ?p = "player (hd (children n))"
  show ?thesis
  proof (cases "?p = kChancePlayerId mcts")
    case chance: True
    with True r show ?thesis
      by (auto simp: BackupNode_def Let_def)
  next
    case False
    from decision_scan_None [OF valid, of True] obtain best' where
      run: "decision_scan ?p None True (children n) =
              Inr (best', \<forall>c\<in>set (children n). outcome c \<noteq> [])" and
      some: "\<forall>b. best' = Some b \<longrightarrow>
        (\<exists>pre post. filter (\<lambda>c. outcome c \<noteq> []) (children n) = pre @ b # post \<and>
           (\<forall>c\<in>set pre. outcome c ! nat ?p < outcome b ! nat ?p) \<and>
           (\<forall>c\<in>set post. outcome c ! nat ?p \<le> outcome b ! nat ?p))"
      by auto
    show ?thesis
    proof (cases best')
      case None
      with run True False r show ?thesis
        by (auto simp: BackupNode_def Let_def)
    next
      case (Some b)
      with some obtain pre post where
        "filter (\<lambda>c. outcome c \<noteq> []) (children n) = pre @ b # post"
        by blast
      then have "b \<in> set (filter (\<lambda>c. outcome c \<noteq> []) (children n))"
        by simp
      then have "b \<in> set (children n)" "outcome b \<noteq> []"
        by simp_all
      with valid have "0 \<le> ?p \<and> nat ?p < length (outcome b)"
        by blast
      then have "index_at (outcome b) ?p = Inr (outcome b ! nat ?p)"
        by (simp add: index_at_def)
      with Some run True False r show ?thesis
        by (auto simp: BackupNode_def Let_def)
    qed
  qed
qed

lemma BestChild_unique_maximum:
  assumes "BestChild n = Inr r" "i < length (children n)"
    and "\<forall>j<length (children n). j \<noteq> i \<longrightarrow>
           key_less (final_key (children n ! j)) (final_key (children n ! i))"
  shows "r = i"
proof (rule ccontr)
  assume "r \<noteq> i"
  from BestChild_first_maximal_aux [OF assms(1)]
  have "r < length (children n)"
    and "\<not> key_less (final_key (children n ! r)) (final_key (children n ! i))"
    using assms(2) by simp_all
  with assms(3) \<open>r \<noteq> i\<close> show False
    by simp
qed

lemma descend_once:
  assumes nt: "\<not> IsTerminal mcts s" and nc: "\<not> IsChanceNode mcts s"
    and la: "shuffle mcts (Prior mcts s) w = (la, w2)" and ne: "la \<noteq> []"
    and cs: "cs = map (\<lambda>(a, pr). new_SearchNode a (CurrentPlayer mcts s) pr) la"
  shows "\<exists>i<length cs.
           ApplyTreePolicy mcts (SearchNode a p pr 1 r [] []) s w m =
             Inr (SearchNode a p pr 1 r [] cs, [i], ApplyAction mcts s (action (cs ! i)), w2,
                  m + VectorMemory_prior mcts la)"
proof -
  let ?n = "SearchNode a p pr 1 r [] []" and ?n1 = "SearchNode a p pr 1 r [] cs"
  have ex: "Expand mcts ?n s w m = (?n1, w2, m + VectorMemory_prior mcts la)"
    using la cs by (simp add: Expand_eq)
  have fresh: "\<forall>c\<in>set cs. outcome c = [] \<and> explore_count c = 0"
    using cs by (auto simp: new_SearchNode_def)
  have "cs \<noteq> []"
    using ne cs by simp
  with uct_scan_unproven [of cs "uct_c mcts" 1 None None 0] fresh obtain i where
    scan: "uct_scan (uct_c mcts) 1 None None 0 cs = Inr (Some i)"
    by auto
  then have ch: "ChooseChild mcts ?n1 s w2 = Inr (i, w2)"
    using nc by (simp add: ChooseChild_def)
  have i: "i < length cs"
    using ChooseChild_range [OF ch] by simp
  then have "explore_count (cs ! i) = 0"
    using fresh by simp
  then have child: "ApplyTreePolicy mcts (cs ! i) s' w2 m' = Inr (cs ! i, [], s', w2, m')" for s' m'
    by (simp add: ApplyTreePolicy.simps)
  have "ApplyTreePolicy mcts ?n s w m =
      Inr (set_children (cs[i := cs ! i]) ?n1, [i], ApplyAction mcts s (action (cs ! i)), w2,
           m + VectorMemory_prior mcts la)"
    by (subst ApplyTreePolicy.simps) (simp add: nt ex ch child)
  with i show ?thesis
    by auto
qed

lemma backup_one_level:
  assumes i: "i < length cs" and leaf: "children (cs ! i) = []" and pc: "player (cs ! i) = p"
    and v: "index_at returns p = Inr r2"
    and others: "\<forall>j<length cs. j \<noteq> i \<longrightarrow> outcome (cs ! j) = []"
    and oi: "outcome (cs ! i) = [] \<or> outcome (cs ! i) = returns"
    and ph: "player (hd cs) = p"
  shows "\<exists>t2 solved' m2.
           Backup mcts returns [i] (SearchNode a p pr ec tr out cs) solved m = Inr (t2, solved', m2) \<and>
           children t2 = cs[i := add_visit r2 (cs ! i)] \<and> explore_count t2 = ec + 1"
proof -
  let ?c' = "add_visit r2 (cs ! i)"
  let ?n1 = "set_children (cs[i := ?c']) (SearchNode a p pr ec tr out cs)"
  have c: "Backup mcts returns [] (cs ! i) solved m = Inr (?c', solved, m)"
    using leaf pc v by (simp add: BackupNode_leaf)
  have vp: "0 \<le> p \<and> nat p < length returns"
    using v by (simp add: index_at_def split: if_splits)
  have hd: "player (hd (cs[i := ?c'])) = p"
    using i ph pc by (cases cs; cases i) simp_all
  have valid: "\<forall>c\<in>set (children ?n1). outcome c \<noteq> [] \<longrightarrow>
      0 \<le> player (hd (children ?n1)) \<and> nat (player (hd (children ?n1))) < length (outcome c)"
  proof (intro ballI impI)
    fix c assume c: "c \<in> set (children ?n1)" "outcome c \<noteq> []"
    then obtain j where j: "j < length cs" "c = cs[i := ?c'] ! j"
      by (metis in_set_conv_nth length_list_update set_children_fields(7))
    have "j = i"
    proof (rule ccontr)
      assume "j \<noteq> i"
      with j others have "outcome c = []" by simp
      with c show False by simp
    qed
    with j i c oi have "outcome c = returns"
      by auto
    with vp hd show "0 \<le> player (hd (children ?n1)) \<and>
        nat (player (hd (children ?n1))) < length (outcome c)"
      by simp
  qed
  have "index_at returns (player ?n1) = Inr r2"
    using v by simp
  from BackupNode_total [OF this valid, of mcts solved m] obtain t2 solved' m2 where
    b: "BackupNode mcts returns ?n1 solved m = Inr (t2, solved', m2)"
    by blast
  from BackupNode_fields [OF b] have "children t2 = cs[i := ?c']" "explore_count t2 = ec + 1"
    by simp_all
  moreover have "Backup mcts returns [i] (SearchNode a p pr ec tr out cs) solved m = Inr (t2, solved', m2)"
    using i c b by simp
  ultimately show ?thesis
    by blast
qed

lemma second_simulation:
  assumes nt: "\<not> IsTerminal mcts s" and nc: "\<not> IsChanceNode mcts s"
    and ne: "fst (shuffle mcts (Prior mcts s) w) \<noteq> []"
    and p: "p = CurrentPlayer mcts s"
    and ev: "\<And>s' v. \<exists>r. index_at (fst (evaluate mcts s' v)) p = Inr r"
    and ret: "\<And>s'. IsTerminal mcts s' \<Longrightarrow> \<exists>r. index_at (Returns mcts s') p = Inr r"
  shows "\<exists>t2 w' m' i.
           Simulation mcts s (SearchNode a p pr 1 r [] []) w m = Inr (t2, w', m') \<and>
           explore_count t2 = 2 \<and>
           i < length (children t2) \<and>
           explore_count (children t2 ! i) = 1 \<and>
           player (children t2 ! i) = p \<and>
           (outcome (children t2 ! i) = [] \<or>
            (0 \<le> p \<and> nat p < length (outcome (children t2 ! i)))) \<and>
           (\<forall>j<length (children t2). j \<noteq> i \<longrightarrow>
              explore_count (children t2 ! j) = 0 \<and> total_reward (children t2 ! j) = 0 \<and>
              outcome (children t2 ! j) = [])"
proof -
  obtain la w2 where la: "shuffle mcts (Prior mcts s) w = (la, w2)"
    by (cases "shuffle mcts (Prior mcts s) w") auto
  with ne have ne': "la \<noteq> []"
    by simp
  define cs where "cs = map (\<lambda>(a, pr). new_SearchNode a (CurrentPlayer mcts s) pr) la"
  let ?n1 = "SearchNode a p pr 1 r [] cs"
  from descend_once [OF nt nc la ne' cs_def, of a p pr r m] obtain i where
    i: "i < length cs" and
    atp: "ApplyTreePolicy mcts (SearchNode a p pr 1 r [] []) s w m =
            Inr (?n1, [i], ApplyAction mcts s (action (cs ! i)), w2, m + VectorMemory_prior mcts la)"
    by blast
  let ?sf = "ApplyAction mcts s (action (cs ! i))"
  have fresh: "\<forall>j<length cs. explore_count (cs ! j) = 0 \<and> total_reward (cs ! j) = 0 \<and>
      outcome (cs ! j) = [] \<and> children (cs ! j) = [] \<and> player (cs ! j) = p"
    by (auto simp: cs_def p new_SearchNode_def split: prod.splits)
  have hd: "player (hd cs) = p"
    using i fresh by (cases cs) auto
  show ?thesis
  proof (cases "IsTerminal mcts ?sf")
    case True
    let ?ret = "Returns mcts ?sf"
    from ret [OF True] obtain r2 where r2: "index_at ?ret p = Inr r2"
      by blast
    let ?cs = "cs[i := set_outcome ?ret (cs ! i)]"
    have sfo: "set_frontier_outcome ?ret [i] ?n1 = SearchNode a p pr 1 r [] ?cs"
      using i by simp
    have hd': "player (hd ?cs) = p"
    proof (cases i)
      case 0
      with i fresh show ?thesis by (cases cs) auto
    next
      case (Suc k)
      with hd show ?thesis by (cases cs) auto
    qed
    have "\<exists>t2 solved' m2.
        Backup mcts ?ret [i] (SearchNode a p pr 1 r [] ?cs) (solve mcts)
          (m + VectorMemory_prior mcts la + VectorMemory_doubles mcts ?ret) = Inr (t2, solved', m2) \<and>
        children t2 = ?cs[i := add_visit r2 (?cs ! i)] \<and> explore_count t2 = 1 + 1"
      using i fresh hd' r2 by (intro backup_one_level) (auto simp: nth_list_update)
    then obtain t2 solved' m2 where
      b: "Backup mcts ?ret [i] (SearchNode a p pr 1 r [] ?cs) (solve mcts)
            (m + VectorMemory_prior mcts la + VectorMemory_doubles mcts ?ret) = Inr (t2, solved', m2)" and
      kids: "children t2 = ?cs[i := add_visit r2 (?cs ! i)]" and ec: "explore_count t2 = 2"
      by auto
    have sim: "Simulation mcts s (SearchNode a p pr 1 r [] []) w m = Inr (t2, w2, m2)"
      using True
      by (simp add: Simulation_def Let_def atp sfo b del: Backup.simps set_frontier_outcome.simps)
    have vp: "0 \<le> p \<and> nat p < length ?ret"
      using r2 by (simp add: index_at_def split: if_splits)
    show ?thesis
      using sim ec i fresh vp
      by (intro exI [of _ t2] exI [of _ w2] exI [of _ m2] exI [of _ i])
        (simp add: kids nth_list_update)
  next
    case False
    obtain v w3 where e: "evaluate mcts ?sf w2 = (v, w3)"
      by (cases "evaluate mcts ?sf w2") auto
    from ev [of ?sf w2] e obtain r2 where r2: "index_at v p = Inr r2"
      by auto
    have "\<exists>t2 solved' m2.
        Backup mcts v [i] (SearchNode a p pr 1 r [] cs) False (m + VectorMemory_prior mcts la) =
          Inr (t2, solved', m2) \<and>
        children t2 = cs[i := add_visit r2 (cs ! i)] \<and> explore_count t2 = 1 + 1"
      using i fresh hd r2 by (intro backup_one_level) auto
    then obtain t2 solved' m2 where
      b: "Backup mcts v [i] (SearchNode a p pr 1 r [] cs) False (m + VectorMemory_prior mcts la) =
            Inr (t2, solved', m2)" and
      kids: "children t2 = cs[i := add_visit r2 (cs ! i)]" and ec: "explore_count t2 = 2"
      by auto
    have sim: "Simulation mcts s (SearchNode a p pr 1 r [] []) w m = Inr (t2, w3, m2)"
      using False
      by (simp add: Simulation_def atp e b del: Backup.simps)
    show ?thesis
      using sim ec i fresh
      by (intro exI [of _ t2] exI [of _ w3] exI [of _ m2] exI [of _ i])
        (simp add: kids nth_list_update)
  qed
qed

lemma BestChild_total:
  assumes "children n \<noteq> []"
    and "\<forall>c\<in>set (children n). outcome c = [] \<or> (0 \<le> player c \<and> nat (player c) < length (outcome c))"
  shows "\<exists>i. BestChild n = Inr i"
proof -
  from assms(1) obtain c cs where cs: "children n = c # cs"
    by (cases "children n") auto
  from assms(2) have "\<forall>x\<in>set (children n). out_of x \<noteq> Inl OutOfRange"
    by (auto simp: out_of_def index_at_def)
  then show ?thesis
    using max_element_total [of c cs 0 1] by (simp add: BestChild_def cs)
qed




end
